theory Spec2Isabelle
  imports Main "HOL-Library.Word"
begin

unbundle bit_operations_syntax

section \<open>Data model\<close>

text \<open>
  The driver in \<^verbatim>\<open>components/mbedtls/port/esp32/aes.c\<close> runs on a 32-bit little-endian
  core: \<^verbatim>\<open>unsigned char\<close> is an 8-bit word, \<^verbatim>\<open>uint32_t\<close>, \<^verbatim>\<open>unsigned int\<close> and
  \<^verbatim>\<open>size_t\<close> are 32-bit words.
\<close>

type_synonym u8 = "8 word"
type_synonym u32 = "32 word"
type_synonym size_t = "32 word"

text \<open>
  The \<^verbatim>\<open>int\<close> results of the entry points: \<^verbatim>\<open>0\<close> and the three error macros of
  \<^verbatim>\<open>mbedtls/aes.h\<close>. \<^verbatim>\<open>ERR_ESP_AES_INVALID_INPUT_LENGTH\<close> of \<^verbatim>\<open>esp32/aes.h\<close> is the
  same value as \<^verbatim>\<open>MBEDTLS_ERR_AES_INVALID_INPUT_LENGTH\<close>.
\<close>

datatype status =
    OK
  | MBEDTLS_ERR_AES_INVALID_KEY_LENGTH
  | MBEDTLS_ERR_AES_INVALID_INPUT_LENGTH
  | MBEDTLS_ERR_AES_BAD_INPUT_DATA

abbreviation ERR_ESP_AES_INVALID_INPUT_LENGTH :: status where
  "ERR_ESP_AES_INVALID_INPUT_LENGTH \<equiv> MBEDTLS_ERR_AES_INVALID_INPUT_LENGTH"

text \<open>
  A call either returns to its caller, or ends in \<^verbatim>\<open>abort()\<close> (the process stops; the
  state at that moment is kept), or indexes a 16-byte array at 16 or beyond, or the key
  array beyond its 32 bytes (undefined in C, so the model stops there).
\<close>

datatype ('r, 's) outcome = Returns 'r 's | Aborts 's | OutOfBounds

text \<open>
  The direction macros of \<^verbatim>\<open>esp32/aes.h\<close> (a header that is not part of the sources at
  hand; the values are those of mbedTLS).
\<close>

definition ESP_AES_ENCRYPT :: int where "ESP_AES_ENCRYPT = 1"
definition ESP_AES_DECRYPT :: int where "ESP_AES_DECRYPT = 0"

text \<open>
  \<^verbatim>\<open>esp_aes_context\<close>: the key length in bytes, the number of key bytes written to the
  hardware (a byte counter that the fault checks compare with the key length), and the
  32-byte key array.
\<close>

record esp_aes_context =
  key_bytes :: u8
  key_in_hardware :: u8
  key :: "u8 list"

text \<open>
  The peripheral: the critical section and the module clock of
  \<^verbatim>\<open>esp_aes_acquire_hardware\<close>, the eight key registers, the mode register, the four
  text registers, and a log of every access the driver makes.
\<close>

datatype hw_event =
    Acquire | Release
  | WriteKey nat u32 | WriteMode u32 | WriteText nat u32
  | Start | ReadText

type_synonym text_block = "u32 \<times> u32 \<times> u32 \<times> u32"

record hw_state =
  in_critical :: bool
  aes_enabled :: bool
  key_regs :: "u32 list"
  mode_reg :: u32
  text_regs :: text_block
  events :: "hw_event list"

text \<open>
  The block transform of the accelerator is a parameter of the model: from the mode
  register, the key registers and the text registers to the text registers it leaves.
  The busy-wait on \<^verbatim>\<open>AES_IDLE_REG\<close> ends, as the hardware always completes.
\<close>

type_synonym xform = "u32 \<Rightarrow> u32 list \<Rightarrow> text_block \<Rightarrow> text_block"

section \<open>Bytes and words\<close>

text \<open>The \<^verbatim>\<open>(uint32_t *)\<close> view of a byte buffer, little-endian.\<close>

definition word_of_bytes :: "u8 \<Rightarrow> u8 \<Rightarrow> u8 \<Rightarrow> u8 \<Rightarrow> u32" where
  "word_of_bytes b0 b1 b2 b3 =
     ucast b0 OR push_bit 8 (ucast b1) OR push_bit 16 (ucast b2) OR push_bit 24 (ucast b3)"

definition byte_of_word :: "u32 \<Rightarrow> nat \<Rightarrow> u8" where
  "byte_of_word w k = ucast (drop_bit (8 * k) w)"

definition load_word :: "u8 list \<Rightarrow> nat \<Rightarrow> u32" where
  "load_word bs i =
     word_of_bytes (bs ! (4 * i)) (bs ! (4 * i + 1)) (bs ! (4 * i + 2)) (bs ! (4 * i + 3))"

definition bytes_of_word :: "u32 \<Rightarrow> u8 list" where
  "bytes_of_word w = [byte_of_word w 0, byte_of_word w 1, byte_of_word w 2, byte_of_word w 3]"

definition load_block :: "u8 list \<Rightarrow> text_block" where
  "load_block bs = (load_word bs 0, load_word bs 1, load_word bs 2, load_word bs 3)"

definition store_block :: "text_block \<Rightarrow> u8 list" where
  "store_block t =
     (case t of (t0, t1, t2, t3) \<Rightarrow>
        bytes_of_word t0 @ bytes_of_word t1 @ bytes_of_word t2 @ bytes_of_word t3)"

definition memcpy :: "u8 list \<Rightarrow> u8 list \<Rightarrow> nat \<Rightarrow> u8 list" where
  "memcpy dst src n = take n src @ drop n dst"

definition zero16 :: "u8 list" where
  "zero16 = replicate 16 0"

section \<open>Hardware access\<close>

definition esp_aes_acquire_hardware :: "hw_state \<Rightarrow> hw_state" where
  "esp_aes_acquire_hardware h =
     h\<lparr>in_critical := True, aes_enabled := True, events := events h @ [Acquire]\<rparr>"

definition esp_aes_release_hardware :: "hw_state \<Rightarrow> hw_state" where
  "esp_aes_release_hardware h =
     h\<lparr>aes_enabled := False, in_critical := False, events := events h @ [Release]\<rparr>"

definition write_key_reg :: "nat \<Rightarrow> u32 \<Rightarrow> hw_state \<Rightarrow> hw_state" where
  "write_key_reg i v h = h\<lparr>key_regs := (key_regs h)[i := v], events := events h @ [WriteKey i v]\<rparr>"

definition write_mode_reg :: "u32 \<Rightarrow> hw_state \<Rightarrow> hw_state" where
  "write_mode_reg v h = h\<lparr>mode_reg := v, events := events h @ [WriteMode v]\<rparr>"

definition set_text :: "nat \<Rightarrow> u32 \<Rightarrow> text_block \<Rightarrow> text_block" where
  "set_text k v t =
     (case t of (t0, t1, t2, t3) \<Rightarrow>
        if k = 0 then (v, t1, t2, t3) else if k = 1 then (t0, v, t2, t3)
        else if k = 2 then (t0, t1, v, t3) else (t0, t1, t2, v))"

definition write_text_reg :: "nat \<Rightarrow> u32 \<Rightarrow> hw_state \<Rightarrow> hw_state" where
  "write_text_reg k v h =
     h\<lparr>text_regs := set_text k v (text_regs h), events := events h @ [WriteText k v]\<rparr>"

text \<open>Writing 1 to \<^verbatim>\<open>AES_START_REG\<close> and polling \<^verbatim>\<open>AES_IDLE_REG\<close> until it reads 1.\<close>

definition start_and_wait :: "xform \<Rightarrow> hw_state \<Rightarrow> hw_state" where
  "start_and_wait xf h =
     h\<lparr>text_regs := xf (mode_reg h) (key_regs h) (text_regs h), events := events h @ [Start]\<rparr>"

text \<open>\<^verbatim>\<open>esp_dport_access_read_buffer(output_words, AES_TEXT_BASE, 4)\<close>.\<close>

definition read_text_buffer :: "hw_state \<Rightarrow> u8 list \<times> hw_state" where
  "read_text_buffer h = (store_block (text_regs h), h\<lparr>events := events h @ [ReadText]\<rparr>)"

section \<open>Key handling\<close>

definition valid_key_length :: "esp_aes_context \<Rightarrow> bool" where
  "valid_key_length ctx \<longleftrightarrow>
     uint (key_bytes ctx) = 128 div 8 \<or> uint (key_bytes ctx) = 192 div 8
       \<or> uint (key_bytes ctx) = 256 div 8"

definition esp_aes_setkey :: "esp_aes_context \<Rightarrow> u8 list \<Rightarrow> u32 \<Rightarrow> status \<times> esp_aes_context" where
  "esp_aes_setkey ctx raw_key keybits =
     (if keybits \<noteq> 128 \<and> keybits \<noteq> 192 \<and> keybits \<noteq> 256
      then (MBEDTLS_ERR_AES_INVALID_KEY_LENGTH, ctx)
      else
        let ctx1 = ctx\<lparr>key_bytes := ucast (keybits div 8)\<rparr>;
            ctx2 = ctx1\<lparr>key := memcpy (key ctx1) raw_key (unat (key_bytes ctx1))\<rparr>;
            ctx3 = ctx2\<lparr>key_in_hardware := 0\<rparr>
        in (OK, ctx3))"

text \<open>One round of the loop that copies the key to the key registers.\<close>

definition setkey_step :: "nat \<Rightarrow> esp_aes_context \<times> hw_state \<Rightarrow> esp_aes_context \<times> hw_state" where
  "setkey_step i s =
     (case s of (ctx, h) \<Rightarrow>
        (ctx\<lparr>key_in_hardware := key_in_hardware ctx + 4\<rparr>,
         write_key_reg i (load_word (key ctx) i) h))"

text \<open>
  \<^verbatim>\<open>esp_aes_setkey_hardware\<close>. A key length of 36 or more would read the key array
  beyond its 32 bytes; no entry point calls the function with one.
\<close>

definition esp_aes_setkey_hardware ::
  "esp_aes_context \<Rightarrow> int \<Rightarrow> hw_state \<Rightarrow> (unit, esp_aes_context \<times> hw_state) outcome" where
  "esp_aes_setkey_hardware ctx mode h =
     (let MODE_DECRYPT_BIT = 4;
          mode_reg_base = (if mode = ESP_AES_ENCRYPT then 0 else MODE_DECRYPT_BIT);
          ctx0 = ctx\<lparr>key_in_hardware := 0\<rparr>
      in if 8 < unat (key_bytes ctx0) div 4 then OutOfBounds
         else
           case fold setkey_step [0 ..< unat (key_bytes ctx0) div 4] (ctx0, h) of
             (ctx1, h1) \<Rightarrow>
               let h2 = write_mode_reg (mode_reg_base + (ucast (key_bytes ctx1) div 8 - 2)) h1
               in if key_in_hardware ctx1 < 16 \<or> key_in_hardware ctx1 \<noteq> key_bytes ctx1
                  then Aborts (ctx1, h2)
                  else Returns () (ctx1, h2))"

section \<open>The single-block operation\<close>

text \<open>
  \<^verbatim>\<open>esp_aes_block(ctx, input, output)\<close>: the result carries the hardware state and the
  16 bytes that the call leaves in the output buffer.
\<close>

definition esp_aes_block ::
  "xform \<Rightarrow> esp_aes_context \<Rightarrow> hw_state \<Rightarrow> u8 list \<Rightarrow> (status, hw_state \<times> u8 list) outcome" where
  "esp_aes_block xf ctx h input =
     (if key_in_hardware ctx \<noteq> key_bytes ctx
      then Returns MBEDTLS_ERR_AES_INVALID_INPUT_LENGTH (h, zero16)
      else
        case load_block input of (i0, i1, i2, i3) \<Rightarrow>
          let h1 = write_text_reg 0 i0 h;
              h2 = write_text_reg 1 i1 h1;
              h3 = write_text_reg 2 i2 h2;
              h4 = write_text_reg 3 i3 h3;
              h5 = start_and_wait xf h4
          in case read_text_buffer h5 of (output, h6) \<Rightarrow>
               if i0 = load_word output 0 \<and> i1 = load_word output 1
                  \<and> i2 = load_word output 2 \<and> i3 = load_word output 3
               then Aborts (h6, zero16)
               else Returns OK (h6, output))"

section \<open>Callers' state and loops\<close>

text \<open>
  What a mode call reads and updates through its pointer arguments, and the
  peripheral: the context, the \<^verbatim>\<open>iv\<close> array, the \<^verbatim>\<open>nonce_counter\<close> and
  \<^verbatim>\<open>stream_block\<close> arrays of CTR, and the offset cell (\<^verbatim>\<open>*iv_off\<close>, \<^verbatim>\<open>*nc_off\<close>).
  The C code keeps the offset in a local \<^verbatim>\<open>n\<close>, loaded on entry and stored back before
  the return; the model updates the cell itself. The bytes a call writes through
  \<^verbatim>\<open>output\<close> are returned next to the state, in order. Input and output buffers are
  disjoint or the same buffer; every loop reads its input byte or block before it
  writes the output at the same place.

  \<^verbatim>\<open>rets\<close> is a ghost log with one entry for each round of a mode loop:
  \<open>Some r\<close> when the round called \<^verbatim>\<open>esp_aes_block\<close>, with the result \<open>r\<close> that the C code
  drops, and \<open>None\<close> when the round made no call.
\<close>

record world =
  ctx :: esp_aes_context
  hw :: hw_state
  iv :: "u8 list"
  nonce_counter :: "u8 list"
  stream_block :: "u8 list"
  off :: size_t
  rets :: "status option list"

type_synonym loop_result = "(unit, world \<times> u8 list) outcome"

text \<open>\<^verbatim>\<open>while (length--) { body }\<close> over the input, one element for each round.\<close>

fun run_loop :: "(world \<Rightarrow> 'a \<Rightarrow> loop_result) \<Rightarrow> world \<Rightarrow> 'a list \<Rightarrow> loop_result" where
  "run_loop body w [] = Returns () (w, [])"
| "run_loop body w (x # xs) =
     (case body w x of
        OutOfBounds \<Rightarrow> OutOfBounds
      | Aborts s \<Rightarrow> Aborts s
      | Returns _ (w1, bs) \<Rightarrow>
          (case run_loop body w1 xs of
             OutOfBounds \<Rightarrow> OutOfBounds
           | Aborts (w2, cs) \<Rightarrow> Aborts (w2, bs @ cs)
           | Returns _ (w2, cs) \<Rightarrow> Returns () (w2, bs @ cs)))"

text \<open>The 16-byte blocks of a buffer, as the CBC loops step through it.\<close>

function blocks16 :: "u8 list \<Rightarrow> u8 list list" where
  "blocks16 bs = (if bs = [] then [] else take 16 bs # blocks16 (drop 16 bs))"
  by pat_completeness auto
termination
  by (relation "measure length") auto

declare blocks16.simps [simp del]

definition acquire :: "world \<Rightarrow> world" where
  "acquire w = w\<lparr>hw := esp_aes_acquire_hardware (hw w)\<rparr>"

definition release :: "world \<Rightarrow> world" where
  "release w = w\<lparr>hw := esp_aes_release_hardware (hw w)\<rparr>"

definition clear_key_in_hardware :: "world \<Rightarrow> world" where
  "clear_key_in_hardware w = w\<lparr>ctx := (ctx w)\<lparr>key_in_hardware := 0\<rparr>\<rparr>"

definition setkey_hardware :: "world \<Rightarrow> int \<Rightarrow> (unit, world) outcome" where
  "setkey_hardware w mode =
     (case esp_aes_setkey_hardware (ctx w) mode (hw w) of
        OutOfBounds \<Rightarrow> OutOfBounds
      | Aborts (c, h) \<Rightarrow> Aborts (w\<lparr>ctx := c, hw := h\<rparr>)
      | Returns _ (c, h) \<Rightarrow> Returns () (w\<lparr>ctx := c, hw := h\<rparr>))"

text \<open>The end of every mode function: release the hardware and return 0.\<close>

definition release_return :: "loop_result \<Rightarrow> (status, world \<times> u8 list) outcome" where
  "release_return r =
     (case r of
        OutOfBounds \<Rightarrow> OutOfBounds
      | Aborts s \<Rightarrow> Aborts s
      | Returns _ (w, out) \<Rightarrow> Returns OK (release w, out))"

section \<open>ECB\<close>

definition esp_aes_crypt_ecb ::
  "xform \<Rightarrow> int \<Rightarrow> world \<Rightarrow> u8 list \<Rightarrow> (status, world \<times> u8 list) outcome" where
  "esp_aes_crypt_ecb xf mode w input =
     (if \<not> valid_key_length (ctx w) then Returns MBEDTLS_ERR_AES_INVALID_KEY_LENGTH (w, [])
      else
        case setkey_hardware (clear_key_in_hardware (acquire w)) mode of
          OutOfBounds \<Rightarrow> OutOfBounds
        | Aborts w1 \<Rightarrow> Aborts (w1, [])
        | Returns _ w1 \<Rightarrow>
            (case esp_aes_block xf (ctx w1) (hw w1) input of
               OutOfBounds \<Rightarrow> OutOfBounds
             | Aborts (h, out) \<Rightarrow> Aborts (w1\<lparr>hw := h\<rparr>, out)
             | Returns r (h, out) \<Rightarrow> Returns r (release (w1\<lparr>hw := h\<rparr>), out)))"

section \<open>CBC\<close>

definition xor_words :: "text_block \<Rightarrow> text_block \<Rightarrow> text_block" where
  "xor_words a b =
     (case a of (a0, a1, a2, a3) \<Rightarrow> case b of (b0, b1, b2, b3) \<Rightarrow>
        (a0 XOR b0, a1 XOR b1, a2 XOR b2, a3 XOR b3))"

definition cbc_decrypt_body :: "xform \<Rightarrow> world \<Rightarrow> u8 list \<Rightarrow> loop_result" where
  "cbc_decrypt_body xf w blk =
     (let temp = memcpy zero16 blk 16
      in case esp_aes_block xf (ctx w) (hw w) blk of
           OutOfBounds \<Rightarrow> OutOfBounds
         | Aborts (h, out) \<Rightarrow> Aborts (w\<lparr>hw := h\<rparr>, out)
         | Returns r (h, out) \<Rightarrow>
             let out1 = store_block (xor_words (load_block out) (load_block (iv w)))
             in Returns () (w\<lparr>hw := h, iv := memcpy (iv w) temp 16,
                              rets := rets w @ [Some r]\<rparr>, out1))"

definition cbc_encrypt_body :: "xform \<Rightarrow> world \<Rightarrow> u8 list \<Rightarrow> loop_result" where
  "cbc_encrypt_body xf w blk =
     (let out0 = store_block (xor_words (load_block blk) (load_block (iv w)))
      in case esp_aes_block xf (ctx w) (hw w) out0 of
           OutOfBounds \<Rightarrow> OutOfBounds
         | Aborts (h, out) \<Rightarrow> Aborts (w\<lparr>hw := h\<rparr>, out)
         | Returns r (h, out) \<Rightarrow>
             Returns () (w\<lparr>hw := h, iv := memcpy (iv w) out 16,
                           rets := rets w @ [Some r]\<rparr>, out))"

definition esp_aes_crypt_cbc ::
  "xform \<Rightarrow> int \<Rightarrow> world \<Rightarrow> u8 list \<Rightarrow> (status, world \<times> u8 list) outcome" where
  "esp_aes_crypt_cbc xf mode w input =
     (if length input mod 16 \<noteq> 0 then Returns ERR_ESP_AES_INVALID_INPUT_LENGTH (w, [])
      else if \<not> valid_key_length (ctx w) then Returns MBEDTLS_ERR_AES_INVALID_KEY_LENGTH (w, [])
      else
        case setkey_hardware (clear_key_in_hardware (acquire w)) mode of
          OutOfBounds \<Rightarrow> OutOfBounds
        | Aborts w1 \<Rightarrow> Aborts (w1, [])
        | Returns _ w1 \<Rightarrow>
            release_return
              (if mode = ESP_AES_DECRYPT
               then run_loop (cbc_decrypt_body xf) w1 (blocks16 input)
               else run_loop (cbc_encrypt_body xf) w1 (blocks16 input)))"

section \<open>CFB128\<close>

text \<open>\<^verbatim>\<open>esp_aes_block(ctx, iv, iv)\<close>: the IV is encrypted in place.\<close>

definition block_iv :: "xform \<Rightarrow> world \<Rightarrow> (unit, world) outcome" where
  "block_iv xf w =
     (case esp_aes_block xf (ctx w) (hw w) (iv w) of
        OutOfBounds \<Rightarrow> OutOfBounds
      | Aborts (h, out) \<Rightarrow> Aborts (w\<lparr>hw := h, iv := out\<rparr>)
      | Returns r (h, out) \<Rightarrow> Returns () (w\<lparr>hw := h, iv := out, rets := rets w @ [Some r]\<rparr>))"

text \<open>\<^verbatim>\<open>if ( n == 0 ) { esp_aes_block(ctx, iv, iv); }\<close>\<close>

definition block_iv_at_0 :: "xform \<Rightarrow> world \<Rightarrow> (unit, world) outcome" where
  "block_iv_at_0 xf w =
     (if off w = 0 then block_iv xf w else Returns () (w\<lparr>rets := rets w @ [None]\<rparr>))"

definition cfb128_decrypt_body :: "xform \<Rightarrow> world \<Rightarrow> u8 \<Rightarrow> loop_result" where
  "cfb128_decrypt_body xf w c =
     (case block_iv_at_0 xf w of
        OutOfBounds \<Rightarrow> OutOfBounds
      | Aborts w1 \<Rightarrow> Aborts (w1, [])
      | Returns _ w1 \<Rightarrow>
          let n = unat (off w1)
          in if 16 \<le> n then OutOfBounds
             else Returns () (w1\<lparr>iv := (iv w1)[n := c], off := (off w1 + 1) AND 0x0F\<rparr>,
                              [c XOR iv w1 ! n]))"

definition cfb128_encrypt_body :: "xform \<Rightarrow> world \<Rightarrow> u8 \<Rightarrow> loop_result" where
  "cfb128_encrypt_body xf w c =
     (case block_iv_at_0 xf w of
        OutOfBounds \<Rightarrow> OutOfBounds
      | Aborts w1 \<Rightarrow> Aborts (w1, [])
      | Returns _ w1 \<Rightarrow>
          let n = unat (off w1)
          in if 16 \<le> n then OutOfBounds
             else Returns () (w1\<lparr>iv := (iv w1)[n := iv w1 ! n XOR c],
                                  off := (off w1 + 1) AND 0x0F\<rparr>,
                              [iv w1 ! n XOR c]))"

definition esp_aes_crypt_cfb128 ::
  "xform \<Rightarrow> int \<Rightarrow> world \<Rightarrow> u8 list \<Rightarrow> (status, world \<times> u8 list) outcome" where
  "esp_aes_crypt_cfb128 xf mode w input =
     (if \<not> valid_key_length (ctx w) then Returns MBEDTLS_ERR_AES_INVALID_KEY_LENGTH (w, [])
      else
        case setkey_hardware (clear_key_in_hardware (acquire w)) ESP_AES_ENCRYPT of
          OutOfBounds \<Rightarrow> OutOfBounds
        | Aborts w1 \<Rightarrow> Aborts (w1, [])
        | Returns _ w1 \<Rightarrow>
            release_return
              (if mode = ESP_AES_DECRYPT
               then run_loop (cfb128_decrypt_body xf) w1 input
               else run_loop (cfb128_encrypt_body xf) w1 input))"

section \<open>CFB8\<close>

text \<open>
  \<^verbatim>\<open>ov[17]\<close> is a local array: its first 16 bytes are copied from the IV in every round,
  \<^verbatim>\<open>ov[16]\<close> is written in both directions (for a \<^verbatim>\<open>mode\<close> that is neither macro the C code
  reads it uninitialised; the model reads 0).
\<close>

definition cfb8_body :: "xform \<Rightarrow> int \<Rightarrow> world \<Rightarrow> u8 \<Rightarrow> loop_result" where
  "cfb8_body xf mode w x =
     (let ov = memcpy (replicate 17 0) (iv w) 16
      in case block_iv xf w of
           OutOfBounds \<Rightarrow> OutOfBounds
         | Aborts w1 \<Rightarrow> Aborts (w1, [])
         | Returns _ w1 \<Rightarrow>
             let ov1 = (if mode = ESP_AES_DECRYPT then ov[16 := x] else ov);
                 c = iv w1 ! 0 XOR x;
                 ov2 = (if mode = ESP_AES_ENCRYPT then ov1[16 := c] else ov1)
             in Returns () (w1\<lparr>iv := memcpy (iv w1) (drop 1 ov2) 16\<rparr>, [c]))"

definition esp_aes_crypt_cfb8 ::
  "xform \<Rightarrow> int \<Rightarrow> world \<Rightarrow> u8 list \<Rightarrow> (status, world \<times> u8 list) outcome" where
  "esp_aes_crypt_cfb8 xf mode w input =
     (if \<not> valid_key_length (ctx w) then Returns MBEDTLS_ERR_AES_INVALID_KEY_LENGTH (w, [])
      else
        case setkey_hardware (clear_key_in_hardware (acquire w)) ESP_AES_ENCRYPT of
          OutOfBounds \<Rightarrow> OutOfBounds
        | Aborts w1 \<Rightarrow> Aborts (w1, [])
        | Returns _ w1 \<Rightarrow> release_return (run_loop (cfb8_body xf mode) w1 input))"

section \<open>CTR\<close>

text \<open>\<^verbatim>\<open>for ( i = 16; i > 0; i-- ) if ( ++nonce_counter[i - 1] != 0 ) break;\<close>\<close>

fun increment_counter :: "nat \<Rightarrow> u8 list \<Rightarrow> u8 list" where
  "increment_counter 0 nc = nc"
| "increment_counter (Suc j) nc =
     (let nc1 = nc[j := nc ! j + 1]
      in if nc1 ! j \<noteq> 0 then nc1 else increment_counter j nc1)"

definition ctr_block_at_0 :: "xform \<Rightarrow> world \<Rightarrow> (unit, world) outcome" where
  "ctr_block_at_0 xf w =
     (if off w = 0 then
        (case esp_aes_block xf (ctx w) (hw w) (nonce_counter w) of
           OutOfBounds \<Rightarrow> OutOfBounds
         | Aborts (h, out) \<Rightarrow> Aborts (w\<lparr>hw := h, stream_block := out\<rparr>)
         | Returns r (h, out) \<Rightarrow>
             Returns () (w\<lparr>hw := h, stream_block := out,
                           nonce_counter := increment_counter 16 (nonce_counter w),
                           rets := rets w @ [Some r]\<rparr>))
      else Returns () (w\<lparr>rets := rets w @ [None]\<rparr>))"

definition ctr_body :: "xform \<Rightarrow> world \<Rightarrow> u8 \<Rightarrow> loop_result" where
  "ctr_body xf w c =
     (case ctr_block_at_0 xf w of
        OutOfBounds \<Rightarrow> OutOfBounds
      | Aborts w1 \<Rightarrow> Aborts (w1, [])
      | Returns _ w1 \<Rightarrow>
          let n = unat (off w1)
          in if 16 \<le> n then OutOfBounds
             else Returns () (w1\<lparr>off := (off w1 + 1) AND 0x0F\<rparr>, [c XOR stream_block w1 ! n]))"

definition esp_aes_crypt_ctr ::
  "xform \<Rightarrow> world \<Rightarrow> u8 list \<Rightarrow> (status, world \<times> u8 list) outcome" where
  "esp_aes_crypt_ctr xf w input =
     (if \<not> valid_key_length (ctx w) then Returns MBEDTLS_ERR_AES_INVALID_KEY_LENGTH (w, [])
      else
        case setkey_hardware (clear_key_in_hardware (acquire w)) ESP_AES_ENCRYPT of
          OutOfBounds \<Rightarrow> OutOfBounds
        | Aborts w1 \<Rightarrow> Aborts (w1, [])
        | Returns _ w1 \<Rightarrow> release_return (run_loop (ctr_body xf) w1 input))"

section \<open>OFB\<close>

text \<open>
  \<^verbatim>\<open>esp_aes_crypt_ofb\<close> is the one entry point that tests its pointer arguments. Each of
  the five is either \<^verbatim>\<open>NULL\<close> or points to its part of the state.
\<close>

datatype ptr = NULL | Valid

definition ofb_body :: "xform \<Rightarrow> world \<Rightarrow> u8 \<Rightarrow> loop_result" where
  "ofb_body xf w c =
     (case block_iv_at_0 xf w of
        OutOfBounds \<Rightarrow> OutOfBounds
      | Aborts w1 \<Rightarrow> Aborts (w1, [])
      | Returns _ w1 \<Rightarrow>
          let n = unat (off w1)
          in if 16 \<le> n then OutOfBounds
             else Returns () (w1\<lparr>off := (off w1 + 1) AND 0x0F\<rparr>, [c XOR iv w1 ! n]))"

definition esp_aes_crypt_ofb ::
  "xform \<Rightarrow> ptr \<Rightarrow> ptr \<Rightarrow> ptr \<Rightarrow> ptr \<Rightarrow> ptr \<Rightarrow> world \<Rightarrow> u8 list
     \<Rightarrow> (status, world \<times> u8 list) outcome" where
  "esp_aes_crypt_ofb xf ctx_p iv_off_p iv_p input_p output_p w input =
     (if ctx_p = NULL \<or> iv_off_p = NULL \<or> iv_p = NULL \<or> input_p = NULL \<or> output_p = NULL
      then Returns MBEDTLS_ERR_AES_BAD_INPUT_DATA (w, [])
      else if off w > 15 then Returns MBEDTLS_ERR_AES_BAD_INPUT_DATA (w, [])
      else if \<not> valid_key_length (ctx w) then Returns MBEDTLS_ERR_AES_INVALID_KEY_LENGTH (w, [])
      else
        case setkey_hardware (acquire w) ESP_AES_ENCRYPT of
          OutOfBounds \<Rightarrow> OutOfBounds
        | Aborts w1 \<Rightarrow> Aborts (w1, [])
        | Returns _ w1 \<Rightarrow> release_return (run_loop (ofb_body xf) w1 input))"

section \<open>What the hardware computes under the loaded key\<close>

text \<open>
  The state of the peripheral after one run of \<^verbatim>\<open>esp_aes_block\<close> on \<open>input\<close>: four text
  writes, the start, the read-back.
\<close>

definition block_hw :: "xform \<Rightarrow> hw_state \<Rightarrow> u8 list \<Rightarrow> hw_state" where
  "block_hw xf h input =
     (case load_block input of (i0, i1, i2, i3) \<Rightarrow>
        snd (read_text_buffer (start_and_wait xf
          (write_text_reg 3 i3 (write_text_reg 2 i2 (write_text_reg 1 i1 (write_text_reg 0 i0 h)))))))"

text \<open>The 16 bytes the hardware leaves for a 16-byte input, under its mode and key registers.\<close>

definition hw_block :: "xform \<Rightarrow> hw_state \<Rightarrow> u8 list \<Rightarrow> u8 list" where
  "hw_block xf h x = store_block (xf (mode_reg h) (key_regs h) (load_block x))"

text \<open>The peripheral after \<^verbatim>\<open>esp_aes_setkey_hardware\<close> has written key and mode.\<close>

definition keyed_hw :: "esp_aes_context \<Rightarrow> int \<Rightarrow> hw_state \<Rightarrow> hw_state" where
  "keyed_hw c mode h =
     write_mode_reg ((if mode = ESP_AES_ENCRYPT then 0 else 4) + (ucast (key_bytes c) div 8 - 2))
       (fold (\<lambda>i. write_key_reg i (load_word (key c) i)) [0 ..< unat (key_bytes c) div 4] h)"

text \<open>The state in which a mode loop starts: hardware acquired, key and mode written.\<close>

definition prepared :: "int \<Rightarrow> world \<Rightarrow> world" where
  "prepared mode w =
     w\<lparr>ctx := (ctx w)\<lparr>key_in_hardware := key_bytes (ctx w)\<rparr>,
       hw := keyed_hw (ctx w) mode (esp_aes_acquire_hardware (hw w))\<rparr>"

section \<open>Sample data\<close>

text \<open>
  A transform that leaves the text registers as they are (the accelerator did not run),
  and a toy transform that adds the first four key registers in the encrypt modes and
  subtracts them in the decrypt modes.
\<close>

definition skipped_xform :: xform where
  "skipped_xform m k t = t"

definition toy_xform :: xform where
  "toy_xform m k t =
     (case t of (t0, t1, t2, t3) \<Rightarrow>
        if m AND 4 = 0 then (t0 + k ! 0, t1 + k ! 1, t2 + k ! 2, t3 + k ! 3)
        else (t0 - k ! 0, t1 - k ! 1, t2 - k ! 2, t3 - k ! 3))"

definition sample_key :: "u8 list" where
  "sample_key = [1, 2, 3, 4, 5, 6, 7, 8, 9, 10, 11, 12, 13, 14, 15, 16,
                 17, 18, 19, 20, 21, 22, 23, 24, 25, 26, 27, 28, 29, 30, 31, 32]"

definition sample_ctx :: esp_aes_context where
  "sample_ctx = \<lparr>key_bytes = 16, key_in_hardware = 0, key = sample_key\<rparr>"

definition sample_hw :: hw_state where
  "sample_hw = \<lparr>in_critical = False, aes_enabled = False, key_regs = replicate 8 0,
                 mode_reg = 0, text_regs = (0, 0, 0, 0), events = []\<rparr>"

definition sample_iv :: "u8 list" where
  "sample_iv = [0, 1, 2, 3, 4, 5, 6, 7, 8, 9, 10, 11, 12, 13, 14, 15]"

definition sample_world :: world where
  "sample_world = \<lparr>ctx = sample_ctx, hw = sample_hw, iv = sample_iv,
                    nonce_counter = replicate 14 0 @ [0, 255], stream_block = zero16,
                    off = 0, rets = []\<rparr>"

section \<open>Notions used in the statements\<close>

text \<open>The key counter of the context equals the key length: the key is in the hardware.\<close>

definition loaded :: "world \<Rightarrow> bool" where
  "loaded w \<longleftrightarrow> key_in_hardware (ctx w) = key_bytes (ctx w)"

text \<open>Bytewise exclusive or of two buffers.\<close>

definition xor_bytes :: "u8 list \<Rightarrow> u8 list \<Rightarrow> u8 list" where
  "xor_bytes a b = map2 (XOR) a b"

text \<open>
  The accelerator as a keyed transform: in mode \<open>m\<close> it reads the first
  \<open>4 + 2 * (m AND 3)\<close> key registers only (four, six or eight words for the 128, 192 and
  256 bit modes), and each decrypt mode \<open>m + 4\<close> undoes the encrypt mode \<open>m\<close> under the
  same key.
\<close>

definition keyed :: "xform \<Rightarrow> bool" where
  "keyed xf \<longleftrightarrow>
     (\<forall>m k k' t. take (4 + 2 * unat (m AND 3)) k = take (4 + 2 * unat (m AND 3)) k'
        \<longrightarrow> xf m k t = xf m k' t)"

definition decrypt_inverts_encrypt :: "xform \<Rightarrow> bool" where
  "decrypt_inverts_encrypt xf \<longleftrightarrow> (\<forall>m k t. m < 3 \<longrightarrow> xf (m + 4) k (xf m k t) = t)"

text \<open>Two states hold the same key.\<close>

definition same_key :: "world \<Rightarrow> world \<Rightarrow> bool" where
  "same_key w v \<longleftrightarrow> key (ctx v) = key (ctx w) \<and> key_bytes (ctx v) = key_bytes (ctx w)"

text \<open>
  How the state of an encrypting loop and the state of the decrypting loop that reads its
  output correspond, round by round: for CFB128 and OFB, for CFB8, for CTR, and for CBC.
\<close>

definition stream_rel :: "xform \<Rightarrow> world \<Rightarrow> world \<Rightarrow> bool" where
  "stream_rel xf w v \<longleftrightarrow>
     loaded w \<and> loaded v \<and> hw_block xf (hw v) = hw_block xf (hw w)
     \<and> iv v = iv w \<and> off v = off w \<and> length (iv w) = 16 \<and> unat (off w) < 16"

definition cfb8_rel :: "xform \<Rightarrow> world \<Rightarrow> world \<Rightarrow> bool" where
  "cfb8_rel xf w v \<longleftrightarrow>
     loaded w \<and> loaded v \<and> hw_block xf (hw v) = hw_block xf (hw w)
     \<and> iv v = iv w \<and> length (iv w) = 16"

definition ctr_rel :: "xform \<Rightarrow> world \<Rightarrow> world \<Rightarrow> bool" where
  "ctr_rel xf w v \<longleftrightarrow>
     loaded w \<and> loaded v \<and> hw_block xf (hw v) = hw_block xf (hw w)
     \<and> nonce_counter v = nonce_counter w \<and> length (nonce_counter w) = 16
     \<and> off v = off w \<and> unat (off w) < 16
     \<and> (off w \<noteq> 0 \<longrightarrow> stream_block v = stream_block w)"

definition cbc_rel :: "xform \<Rightarrow> world \<Rightarrow> world \<Rightarrow> bool" where
  "cbc_rel xf w v \<longleftrightarrow>
     loaded w \<and> loaded v
     \<and> (\<forall>x. length x = 16 \<longrightarrow> hw_block xf (hw v) (hw_block xf (hw w) x) = x)
     \<and> iv v = iv w \<and> length (iv w) = 16"

text \<open>Reading the result of a call: it returned 0; the state and the output bytes it left.\<close>

definition returned_ok :: "(status, world \<times> u8 list) outcome \<Rightarrow> bool" where
  "returned_ok r = (case r of Returns st s \<Rightarrow> st = OK | Aborts s \<Rightarrow> False | OutOfBounds \<Rightarrow> False)"

definition state_of :: "(status, world \<times> u8 list) outcome \<Rightarrow> world" where
  "state_of r = (case r of Returns st s \<Rightarrow> fst s | Aborts s \<Rightarrow> fst s | OutOfBounds \<Rightarrow> sample_world)"

definition output_of :: "(status, world \<times> u8 list) outcome \<Rightarrow> u8 list" where
  "output_of r = (case r of Returns st s \<Rightarrow> snd s | Aborts s \<Rightarrow> snd s | OutOfBounds \<Rightarrow> [])"

definition sample_text :: "u8 list" where
  "sample_text = [72, 101, 108, 108, 111, 44, 32, 119, 111, 114, 108, 100, 33, 0, 255, 7,
                  16, 17, 18, 19, 20, 21, 22, 23, 24, 25, 26, 27, 28, 29, 30, 31]"

text \<open>A second state with the same key and IV, and other register contents.\<close>

definition other_world :: world where
  "other_world = sample_world\<lparr>hw := sample_hw\<lparr>key_regs := replicate 8 7, mode_reg := 6\<rparr>,
                                stream_block := sample_iv\<rparr>"

text \<open>
  Forgetting the access log of the peripheral; two states that differ in the log only;
  and a call that continues an earlier one: whatever the second call does (it returns,
  it aborts, it runs out of bounds), the call over the whole input does the same, with
  the output of the first call in front and the same state but for the log.
\<close>

definition strip_hw :: "hw_state \<Rightarrow> hw_state" where
  "strip_hw h = h\<lparr>events := []\<rparr>"

definition strip :: "world \<Rightarrow> world" where
  "strip w = w\<lparr>hw := strip_hw (hw w)\<rparr>"

definition equal_but_log :: "world \<Rightarrow> world \<Rightarrow> bool" where
  "equal_but_log w v \<longleftrightarrow> strip w = strip v"

definition continues ::
  "u8 list \<Rightarrow> (status, world \<times> u8 list) outcome \<Rightarrow> (status, world \<times> u8 list) outcome \<Rightarrow> bool" where
  "continues o1 second whole =
     (case second of
        Returns st s \<Rightarrow> (\<exists>w. whole = Returns st (w, o1 @ snd s) \<and> equal_but_log (fst s) w)
      | Aborts s \<Rightarrow> (\<exists>w. whole = Aborts (w, o1 @ snd s) \<and> equal_but_log (fst s) w)
      | OutOfBounds \<Rightarrow> whole = OutOfBounds)"

definition forget :: "('r, world \<times> u8 list) outcome \<Rightarrow> ('r, world \<times> u8 list) outcome" where
  "forget r =
     (case r of
        Returns u s \<Rightarrow> Returns u (strip (fst s), snd s)
      | Aborts s \<Rightarrow> Aborts (strip (fst s), snd s)
      | OutOfBounds \<Rightarrow> OutOfBounds)"

text \<open>
  The state inside a mode loop: the key counter equals the key length, the hardware is
  held, and the key and mode registers hold what \<^verbatim>\<open>esp_aes_setkey_hardware\<close> wrote.
\<close>

definition programmed :: "esp_aes_context \<Rightarrow> int \<Rightarrow> world \<Rightarrow> bool" where
  "programmed c m w \<longleftrightarrow>
     ctx w = c \<and> key_in_hardware c = key_bytes c \<and> in_critical (hw w) \<and> aes_enabled (hw w)
     \<and> mode_reg (hw w) = (if m = ESP_AES_ENCRYPT then 0 else 4) + (ucast (key_bytes c) div 8 - 2)
     \<and> (\<forall>i < unat (key_bytes c) div 4.
           i < length (key_regs (hw w)) \<longrightarrow> key_regs (hw w) ! i = load_word (key c) i)"

text \<open>
  A caller that passes a buffer in segments: one call for each segment, each starting in
  the state the call before it returned, as long as the calls return 0. The result is
  that of the last call made, with the outputs of all calls in sequence.
\<close>

definition prepend :: "u8 list \<Rightarrow> (status, world \<times> u8 list) outcome \<Rightarrow> (status, world \<times> u8 list) outcome" where
  "prepend o1 r =
     (case r of
        Returns st s \<Rightarrow> Returns st (fst s, o1 @ snd s)
      | Aborts s \<Rightarrow> Aborts (fst s, o1 @ snd s)
      | OutOfBounds \<Rightarrow> OutOfBounds)"

fun call_each ::
  "(world \<Rightarrow> u8 list \<Rightarrow> (status, world \<times> u8 list) outcome) \<Rightarrow> world \<Rightarrow> u8 list list
     \<Rightarrow> (status, world \<times> u8 list) outcome" where
  "call_each f w [] = Returns OK (w, [])"
| "call_each f w [seg] = f w seg"
| "call_each f w (seg # segs) =
     (case f w seg of
        Returns st s \<Rightarrow> if st = OK then prepend (snd s) (call_each f (fst s) segs) else Returns st s
      | Aborts s \<Rightarrow> Aborts s
      | OutOfBounds \<Rightarrow> OutOfBounds)"

definition sample_segments :: "u8 list list" where
  "sample_segments = [take 5 sample_text, take 12 (drop 5 sample_text), drop 17 sample_text]"

text \<open>
  The state inside the loops that carry an offset, and the log such a loop writes: round
  \<open>k\<close> of a loop that starts at offset \<open>n\<close> finds the offset \<open>(n + k) mod 16\<close> and calls
  the hardware exactly when that is 0.
\<close>

definition iv_inv :: "world \<Rightarrow> bool" where
  "iv_inv w \<longleftrightarrow> loaded w \<and> length (iv w) = 16 \<and> unat (off w) < 16"

definition ctr_inv :: "world \<Rightarrow> bool" where
  "ctr_inv w \<longleftrightarrow> loaded w \<and> length (nonce_counter w) = 16 \<and> unat (off w) < 16"

definition block_log :: "nat \<Rightarrow> nat \<Rightarrow> status option list" where
  "block_log n len = map (\<lambda>k. if (n + k) mod 16 = 0 then Some OK else None) [0 ..< len]"

text \<open>A call that ended in \<^verbatim>\<open>abort()\<close>.\<close>

definition aborted :: "(status, world \<times> u8 list) outcome \<Rightarrow> bool" where
  "aborted r = (case r of Returns st s \<Rightarrow> False | Aborts s \<Rightarrow> True | OutOfBounds \<Rightarrow> False)"

text \<open>
  The rounds a call made, read from the log: the state \<open>w'\<close> has the log of \<open>w\<close> and after
  it entries that are \<open>None\<close> or \<open>Some OK\<close> only, so no call of \<^verbatim>\<open>esp_aes_block\<close> since \<open>w\<close>
  took the branch that zeroes the output and returns an error.
\<close>

definition good_rounds :: "world \<Rightarrow> world \<Rightarrow> bool" where
  "good_rounds w w' \<longleftrightarrow>
     length (rets w) \<le> length (rets w')
     \<and> take (length (rets w)) (rets w') = rets w
     \<and> list_all (\<lambda>e. e = None \<or> e = Some OK) (drop (length (rets w)) (rets w'))"

text \<open>
  The context of \<open>w'\<close> is the context of \<open>w\<close> with the key counter set to the key length,
  as \<^verbatim>\<open>esp_aes_setkey_hardware\<close> leaves it when its own check passes.
\<close>

definition key_in_place :: "world \<Rightarrow> world \<Rightarrow> bool" where
  "key_in_place w w' \<longleftrightarrow> ctx w' = (ctx w)\<lparr>key_in_hardware := key_bytes (ctx w)\<rparr>"

text \<open>
  The peripheral as \<^verbatim>\<open>esp_aes_block\<close> leaves it when its fault check calls \<^verbatim>\<open>abort()\<close>: the
  last six accesses are the four writes of the input words, the start and the read-back,
  and the text registers read back hold the input words that were written: the transform,
  under the mode and key registers, left them as they were.
\<close>

definition fault_found :: "xform \<Rightarrow> hw_state \<Rightarrow> bool" where
  "fault_found xf h =
     (case text_regs h of (t0, t1, t2, t3) \<Rightarrow>
        6 \<le> length (events h)
        \<and> drop (length (events h) - 6) (events h)
            = [WriteText 0 t0, WriteText 1 t1, WriteText 2 t2, WriteText 3 t3, Start, ReadText]
        \<and> xf (mode_reg h) (key_regs h) (t0, t1, t2, t3) = (t0, t1, t2, t3))"

text \<open>
  A call in state \<open>w\<close> that ran every block on the hardware. Either it returned 0, or it
  ended in \<^verbatim>\<open>abort()\<close> at the fault check of \<^verbatim>\<open>esp_aes_block\<close>; in both cases the key counter
  equals the key length and every earlier round that called \<^verbatim>\<open>esp_aes_block\<close> got 0 from it.
\<close>

definition blocks_ran :: "xform \<Rightarrow> world \<Rightarrow> (status, world \<times> u8 list) outcome \<Rightarrow> bool" where
  "blocks_ran xf w r =
     (case r of
        Returns st s \<Rightarrow> st = OK \<and> key_in_place w (fst s) \<and> good_rounds w (fst s)
      | Aborts s \<Rightarrow>
          key_in_place w (fst s) \<and> good_rounds w (fst s) \<and> fault_found xf (hw (fst s))
      | OutOfBounds \<Rightarrow> False)"

text \<open>The value of a byte array read as a big-endian number.\<close>

definition be_value :: "u8 list \<Rightarrow> nat" where
  "be_value bs = foldl (\<lambda>acc b. acc * 256 + unat b) 0 bs"

text \<open>The number of fresh keystream blocks in \<open>len\<close> rounds from offset \<open>n\<close>.\<close>

definition fresh_blocks :: "nat \<Rightarrow> nat \<Rightarrow> nat" where
  "fresh_blocks n len = length (filter (\<lambda>e. e \<noteq> None) (block_log n len))"

text \<open>
  The state inside the loops that call the hardware in every round, and a loop body of
  which every round either aborts at the fault check or adds one good entry to the log.
\<close>

definition rounds_inv :: "world \<Rightarrow> bool" where
  "rounds_inv w \<longleftrightarrow> loaded w \<and> length (iv w) = 16"

definition rounds_ok ::
  "xform \<Rightarrow> (world \<Rightarrow> bool) \<Rightarrow> ('a \<Rightarrow> bool) \<Rightarrow> (world \<Rightarrow> 'a \<Rightarrow> loop_result) \<Rightarrow> bool" where
  "rounds_ok xf I P body \<longleftrightarrow>
     (\<forall>w x. I w \<longrightarrow> P x \<longrightarrow>
        (\<exists>s. body w x = Aborts s \<and> ctx (fst s) = ctx w \<and> rets (fst s) = rets w
              \<and> fault_found xf (hw (fst s)))
        \<or> (\<exists>w1 bs e. body w x = Returns () (w1, bs) \<and> I w1 \<and> ctx w1 = ctx w
               \<and> rets w1 = rets w @ [e] \<and> (e = None \<or> e = Some OK)))"

text \<open>An encrypting and a decrypting state that ECB calls can be made in, block by block.\<close>

definition ecb_pair :: "world \<Rightarrow> world \<Rightarrow> bool" where
  "ecb_pair we wd \<longleftrightarrow>
     valid_key_length (ctx we) \<and> same_key we wd
     \<and> length (key_regs (hw we)) = 8 \<and> length (key_regs (hw wd)) = 8"

section \<open>Bytes and words: lemmas\<close>

lemma byte_of_word_0 [simp]: "byte_of_word (word_of_bytes b0 b1 b2 b3) 0 = b0"
  unfolding byte_of_word_def word_of_bytes_def
  by (rule bit_word_eqI) (auto simp: bit_simps dest: bit_imp_le_length)

lemma byte_of_word_1 [simp]: "byte_of_word (word_of_bytes b0 b1 b2 b3) (Suc 0) = b1"
  unfolding byte_of_word_def word_of_bytes_def
  by (rule bit_word_eqI) (auto simp: bit_simps dest: bit_imp_le_length)

lemma byte_of_word_2 [simp]: "byte_of_word (word_of_bytes b0 b1 b2 b3) 2 = b2"
  unfolding byte_of_word_def word_of_bytes_def
  by (rule bit_word_eqI) (auto simp: bit_simps dest: bit_imp_le_length)

lemma byte_of_word_3 [simp]: "byte_of_word (word_of_bytes b0 b1 b2 b3) 3 = b3"
  unfolding byte_of_word_def word_of_bytes_def
  by (rule bit_word_eqI) (auto simp: bit_simps dest: bit_imp_le_length)

lemma word_of_bytes_of_word [simp]:
  "word_of_bytes (byte_of_word w 0) (byte_of_word w (Suc 0)) (byte_of_word w 2) (byte_of_word w 3) = w"
proof (rule bit_word_eqI)
  fix n :: nat
  assume n: "n < LENGTH(32)"
  have c: "n < 8 \<or> (8 \<le> n \<and> n < 16) \<or> (16 \<le> n \<and> n < 24) \<or> (24 \<le> n \<and> n < 32)"
    using n by auto
  show "bit (word_of_bytes (byte_of_word w 0) (byte_of_word w (Suc 0)) (byte_of_word w 2)
               (byte_of_word w 3)) n = bit w n"
    using c n unfolding byte_of_word_def word_of_bytes_def
    by (auto simp: bit_simps dest: bit_imp_le_length)
qed

lemma word_of_bytes_xor:
  "word_of_bytes a0 a1 a2 a3 XOR word_of_bytes b0 b1 b2 b3 =
   word_of_bytes (a0 XOR b0) (a1 XOR b1) (a2 XOR b2) (a3 XOR b3)"
  unfolding word_of_bytes_def
  by (rule bit_word_eqI) (auto simp: bit_simps dest: bit_imp_le_length)

lemma load_word_bytes_of_word [simp]:
  "load_word (bytes_of_word w0 @ bytes_of_word w1 @ bytes_of_word w2 @ bytes_of_word w3) 0 = w0"
  "load_word (bytes_of_word w0 @ bytes_of_word w1 @ bytes_of_word w2 @ bytes_of_word w3) (Suc 0) = w1"
  "load_word (bytes_of_word w0 @ bytes_of_word w1 @ bytes_of_word w2 @ bytes_of_word w3) 2 = w2"
  "load_word (bytes_of_word w0 @ bytes_of_word w1 @ bytes_of_word w2 @ bytes_of_word w3) 3 = w3"
  by (simp_all add: load_word_def bytes_of_word_def)

lemma load_store_block [simp]: "load_block (store_block t) = t"
  by (cases t) (simp add: load_block_def store_block_def)

lemma length_store_block [simp]: "length (store_block t) = 16"
  by (cases t) (simp add: store_block_def bytes_of_word_def)

lemma length_zero16 [simp]: "length zero16 = 16"
  by (simp add: zero16_def)

lemma bytes_of_word_of_bytes [simp]:
  "bytes_of_word (word_of_bytes b0 b1 b2 b3) = [b0, b1, b2, b3]"
  by (simp add: bytes_of_word_def)

lemma list16:
  assumes "length bs = 16"
  shows "bs = [bs ! 0, bs ! 1, bs ! 2, bs ! 3, bs ! 4, bs ! 5, bs ! 6, bs ! 7,
               bs ! 8, bs ! 9, bs ! 10, bs ! 11, bs ! 12, bs ! 13, bs ! 14, bs ! 15]"
proof -
  have "bs = map ((!) bs) [0 ..< 16]"
    using assms map_nth [of bs] by simp
  also have "[0 ..< 16] = [0, 1, 2, 3, 4, 5, 6, 7, 8, 9, 10, 11, 12, 13, 14, 15 :: nat]"
    by (simp add: upt_rec)
  finally show ?thesis by simp
qed

lemma store_load_explicit:
  "store_block (load_block [c0, c1, c2, c3, c4, c5, c6, c7, c8, c9, c10, c11, c12, c13, c14, c15])
     = [c0, c1, c2, c3, c4, c5, c6, c7, c8, c9, c10, c11, c12, c13, c14, c15]"
  by (simp add: store_block_def load_block_def load_word_def)

lemma store_load_block:
  assumes "length bs = 16" shows "store_block (load_block bs) = bs"
  using store_load_explicit list16 [OF assms] by metis

section \<open>The single-block operation: lemmas\<close>

lemma write_text_reg_sel [simp]:
  "key_regs (write_text_reg k v h) = key_regs h"
  "mode_reg (write_text_reg k v h) = mode_reg h"
  "in_critical (write_text_reg k v h) = in_critical h"
  "aes_enabled (write_text_reg k v h) = aes_enabled h"
  by (simp_all add: write_text_reg_def)

lemma text_after_writes [simp]:
  "text_regs (write_text_reg 3 i3 (write_text_reg 2 i2 (write_text_reg 1 i1 (write_text_reg 0 i0 h))))
     = (i0, i1, i2, i3)"
  by (cases "text_regs h") (simp add: write_text_reg_def set_text_def)

lemma esp_aes_block_loaded:
  assumes "key_in_hardware c = key_bytes c"
  shows "esp_aes_block xf c h input =
     (if xf (mode_reg h) (key_regs h) (load_block input) = load_block input
      then Aborts (block_hw xf h input, zero16)
      else Returns OK (block_hw xf h input, hw_block xf h input))"
proof -
  obtain i0 i1 i2 i3 where l: "load_block input = (i0, i1, i2, i3)"
    by (cases "load_block input") auto
  obtain o0 o1 o2 o3 where x: "xf (mode_reg h) (key_regs h) (i0, i1, i2, i3) = (o0, o1, o2, o3)"
    by (cases "xf (mode_reg h) (key_regs h) (i0, i1, i2, i3)") auto
  have cmp: "\<And>out. (i0 = load_word out 0 \<and> i1 = load_word out 1 \<and> i2 = load_word out 2
      \<and> i3 = load_word out 3) \<longleftrightarrow> load_block out = (i0, i1, i2, i3)"
    by (auto simp: load_block_def)
  show ?thesis
    using assms x
    by (simp add: esp_aes_block_def l Let_def block_hw_def hw_block_def read_text_buffer_def
          start_and_wait_def cmp del: One_nat_def)
qed

lemma block_hw_sel [simp]:
  "key_regs (block_hw xf h input) = key_regs h"
  "mode_reg (block_hw xf h input) = mode_reg h"
  "in_critical (block_hw xf h input) = in_critical h"
  "aes_enabled (block_hw xf h input) = aes_enabled h"
  by (cases "load_block input"; simp add: block_hw_def read_text_buffer_def start_and_wait_def)+

lemma length_hw_block [simp]: "length (hw_block xf h x) = 16"
  by (simp add: hw_block_def)

lemma fixed_point_iff:
  assumes "length x = 16"
  shows "xf (mode_reg h) (key_regs h) (load_block x) = load_block x \<longleftrightarrow> hw_block xf h x = x"
proof
  assume "xf (mode_reg h) (key_regs h) (load_block x) = load_block x"
  then show "hw_block xf h x = x"
    by (simp add: hw_block_def store_load_block [OF assms])
next
  assume "hw_block xf h x = x"
  then have "load_block (hw_block xf h x) = load_block x" by simp
  then show "xf (mode_reg h) (key_regs h) (load_block x) = load_block x"
    by (simp add: hw_block_def)
qed

section \<open>Key handling: lemmas\<close>

lemma setkey_step_pair:
  "setkey_step i (c, h) =
     (c\<lparr>key_in_hardware := key_in_hardware c + 4\<rparr>, write_key_reg i (load_word (key c) i) h)"
  by (simp add: setkey_step_def)

lemma fold_setkey_step:
  "fold setkey_step [0 ..< n] (c, h) =
     (c\<lparr>key_in_hardware := key_in_hardware c + 4 * of_nat n\<rparr>,
      fold (\<lambda>i. write_key_reg i (load_word (key c) i)) [0 ..< n] h)"
proof (induction n)
  case 0
  show ?case by simp
next
  case (Suc n)
  have "fold setkey_step [0 ..< Suc n] (c, h) = setkey_step n (fold setkey_step [0 ..< n] (c, h))"
    by simp
  also have "\<dots> = setkey_step n (c\<lparr>key_in_hardware := key_in_hardware c + 4 * of_nat n\<rparr>,
      fold (\<lambda>i. write_key_reg i (load_word (key c) i)) [0 ..< n] h)"
    unfolding Suc ..
  finally show ?case by (simp add: setkey_step_pair algebra_simps)
qed

lemma valid_key_length_cases:
  "valid_key_length c \<longleftrightarrow> key_bytes c = 16 \<or> key_bytes c = 24 \<or> key_bytes c = 32"
  by (auto simp add: valid_key_length_def uint_word_of_int word_uint_eq_iff)

lemma esp_aes_setkey_hardware_valid:
  assumes "valid_key_length c"
  shows "esp_aes_setkey_hardware c mode h =
           Returns () (c\<lparr>key_in_hardware := key_bytes c\<rparr>, keyed_hw c mode h)"
  using assms unfolding valid_key_length_cases
  by (elim disjE) (simp_all add: esp_aes_setkey_hardware_def Let_def fold_setkey_step keyed_hw_def)

lemma keyed_hw_key_in_hardware [simp]:
  "keyed_hw (c\<lparr>key_in_hardware := v\<rparr>) mode h = keyed_hw c mode h"
  by (simp add: keyed_hw_def)

lemma setkey_hardware_prepared:
  assumes "valid_key_length (ctx w)"
  shows "setkey_hardware (clear_key_in_hardware (acquire w)) mode = Returns () (prepared mode w)"
    and "setkey_hardware (acquire w) mode = Returns () (prepared mode w)"
  using assms
  by (simp_all add: setkey_hardware_def clear_key_in_hardware_def acquire_def prepared_def
        esp_aes_setkey_hardware_valid valid_key_length_cases)

section \<open>Claims on single calls\<close>

text \<open>
  C2. When the key is loaded and the four words read back from the text registers equal
  the four input words, \<^verbatim>\<open>esp_aes_block\<close> leaves 16 zero bytes in the output buffer and
  ends in \<^verbatim>\<open>abort()\<close>: the outcome is \<open>Aborts\<close>, never \<open>Returns\<close>.
\<close>

theorem fault_check_zeroes_and_aborts:
  assumes "key_in_hardware c = key_bytes c"
    and "xf (mode_reg h) (key_regs h) (load_block input) = load_block input"
  shows "esp_aes_block xf c h input = Aborts (block_hw xf h input, replicate 16 0)"
  using assms by (simp add: esp_aes_block_loaded zero16_def)

theorem fault_check_zeroes_and_aborts_witness:
  "key_in_hardware (sample_ctx\<lparr>key_in_hardware := 16\<rparr>) = key_bytes (sample_ctx\<lparr>key_in_hardware := 16\<rparr>)
   \<and> skipped_xform (mode_reg sample_hw) (key_regs sample_hw) (load_block sample_iv) = load_block sample_iv
   \<and> esp_aes_block skipped_xform (sample_ctx\<lparr>key_in_hardware := 16\<rparr>) sample_hw sample_iv
       = Aborts (block_hw skipped_xform sample_hw sample_iv, replicate 16 0)"
  using fault_check_zeroes_and_aborts
    [of "sample_ctx\<lparr>key_in_hardware := 16\<rparr>" skipped_xform sample_hw sample_iv]
  by (simp add: sample_ctx_def skipped_xform_def)

text \<open>
  C6. For a bit length other than 128, 192 and 256, \<^verbatim>\<open>esp_aes_setkey\<close> returns
  \<^verbatim>\<open>MBEDTLS_ERR_AES_INVALID_KEY_LENGTH\<close> and the context is the one it was given (key
  bytes, key length and hardware counter). For each of the three lengths it returns 0,
  the first \<open>keybits / 8\<close> bytes of the key array are those of the caller's key, the key
  length is \<open>keybits / 8\<close>, and the hardware counter is 0.
\<close>

theorem setkey_validates_length:
  "(keybits \<noteq> 128 \<and> keybits \<noteq> 192 \<and> keybits \<noteq> 256 \<longrightarrow>
      esp_aes_setkey c raw_key keybits = (MBEDTLS_ERR_AES_INVALID_KEY_LENGTH, c))
   \<and> ((keybits = 128 \<or> keybits = 192 \<or> keybits = 256) \<and> unat keybits div 8 \<le> length raw_key \<longrightarrow>
        (\<exists>c'. esp_aes_setkey c raw_key keybits = (OK, c')
           \<and> unat (key_bytes c') = unat keybits div 8
           \<and> take (unat keybits div 8) (key c') = take (unat keybits div 8) raw_key
           \<and> drop (unat keybits div 8) (key c') = drop (unat keybits div 8) (key c)
           \<and> key_in_hardware c' = 0))"
  by (auto simp add: esp_aes_setkey_def Let_def memcpy_def)

theorem setkey_validates_length_witness:
  "esp_aes_setkey sample_ctx sample_key 100 = (MBEDTLS_ERR_AES_INVALID_KEY_LENGTH, sample_ctx)
   \<and> (\<exists>c'. esp_aes_setkey (sample_ctx\<lparr>key_in_hardware := 16\<rparr>) sample_key 192 = (OK, c')
         \<and> unat (key_bytes c') = 24
         \<and> take 24 (key c') = take 24 sample_key
         \<and> key_in_hardware c' = 0)"
  using setkey_validates_length [of 100 sample_ctx sample_key]
    setkey_validates_length [of 192 "sample_ctx\<lparr>key_in_hardware := 16\<rparr>" sample_key]
  by (auto simp add: sample_key_def)

text \<open>
  C7. For an input length that is not a multiple of 16, \<^verbatim>\<open>esp_aes_crypt_cbc\<close> returns
  \<^verbatim>\<open>ERR_ESP_AES_INVALID_INPUT_LENGTH\<close> with the state it was given: the peripheral (its
  critical section, its registers and its access log, so no acquisition and no block
  operation), the context and the IV are unchanged, and no byte is written to the output.
\<close>

theorem cbc_rejects_partial_block:
  assumes "length input mod 16 \<noteq> 0"
  shows "esp_aes_crypt_cbc xf mode w input = Returns ERR_ESP_AES_INVALID_INPUT_LENGTH (w, [])"
  using assms by (simp add: esp_aes_crypt_cbc_def)

theorem cbc_rejects_partial_block_witness:
  "length [1, 2, 3 :: u8] mod 16 \<noteq> 0
   \<and> esp_aes_crypt_cbc toy_xform ESP_AES_ENCRYPT sample_world [1, 2, 3]
       = Returns ERR_ESP_AES_INVALID_INPUT_LENGTH (sample_world, [])"
  using cbc_rejects_partial_block [of "[1, 2, 3]" toy_xform ESP_AES_ENCRYPT sample_world]
  by simp

section \<open>Argument checks\<close>


lemma esp_aes_block_status:
  "esp_aes_block xf c h x = Returns r s \<Longrightarrow> r = OK \<or> r = MBEDTLS_ERR_AES_INVALID_INPUT_LENGTH"
  by (auto simp add: esp_aes_block_def Let_def read_text_buffer_def split: if_splits prod.splits)

lemma release_return_status:
  "release_return r = Returns st s \<Longrightarrow> st = OK"
  by (auto simp add: release_return_def split: outcome.splits prod.splits)

lemma ecb_status:
  "esp_aes_crypt_ecb xf mode w input = Returns r s \<Longrightarrow> r \<noteq> MBEDTLS_ERR_AES_BAD_INPUT_DATA"
  by (auto simp add: esp_aes_crypt_ecb_def split: if_splits outcome.splits prod.splits
        dest: esp_aes_block_status)

lemma cbc_status:
  "esp_aes_crypt_cbc xf mode w input = Returns r s \<Longrightarrow> r \<noteq> MBEDTLS_ERR_AES_BAD_INPUT_DATA"
  by (auto simp add: esp_aes_crypt_cbc_def split: if_splits outcome.splits
        dest: release_return_status)

lemma cfb128_status:
  "esp_aes_crypt_cfb128 xf mode w input = Returns r s \<Longrightarrow> r \<noteq> MBEDTLS_ERR_AES_BAD_INPUT_DATA"
  by (auto simp add: esp_aes_crypt_cfb128_def split: if_splits outcome.splits
        dest: release_return_status)

lemma cfb8_status:
  "esp_aes_crypt_cfb8 xf mode w input = Returns r s \<Longrightarrow> r \<noteq> MBEDTLS_ERR_AES_BAD_INPUT_DATA"
  by (auto simp add: esp_aes_crypt_cfb8_def split: if_splits outcome.splits
        dest: release_return_status)

lemma ctr_status:
  "esp_aes_crypt_ctr xf w input = Returns r s \<Longrightarrow> r \<noteq> MBEDTLS_ERR_AES_BAD_INPUT_DATA"
  by (auto simp add: esp_aes_crypt_ctr_def split: if_splits outcome.splits
        dest: release_return_status)

text \<open>
  C9. \<^verbatim>\<open>esp_aes_crypt_ofb\<close> returns \<^verbatim>\<open>MBEDTLS_ERR_AES_BAD_INPUT_DATA\<close> exactly when one of
  its five pointer arguments is \<^verbatim>\<open>NULL\<close> or the offset is greater than 15, and then the
  state is the one it was given (nothing acquired, no register touched, nothing written).
  None of the other five mode functions ever returns that error.
\<close>

theorem ofb_alone_checks_arguments:
  "(ctx_p = NULL \<or> iv_off_p = NULL \<or> iv_p = NULL \<or> input_p = NULL \<or> output_p = NULL \<or> off w > 15
      \<longrightarrow> esp_aes_crypt_ofb xf ctx_p iv_off_p iv_p input_p output_p w input
            = Returns MBEDTLS_ERR_AES_BAD_INPUT_DATA (w, []))
   \<and> (esp_aes_crypt_ofb xf ctx_p iv_off_p iv_p input_p output_p w input
         = Returns MBEDTLS_ERR_AES_BAD_INPUT_DATA s
       \<longrightarrow> ctx_p = NULL \<or> iv_off_p = NULL \<or> iv_p = NULL \<or> input_p = NULL \<or> output_p = NULL
           \<or> off w > 15)
   \<and> esp_aes_crypt_ecb xf mode w input \<noteq> Returns MBEDTLS_ERR_AES_BAD_INPUT_DATA s
   \<and> esp_aes_crypt_cbc xf mode w input \<noteq> Returns MBEDTLS_ERR_AES_BAD_INPUT_DATA s
   \<and> esp_aes_crypt_cfb128 xf mode w input \<noteq> Returns MBEDTLS_ERR_AES_BAD_INPUT_DATA s
   \<and> esp_aes_crypt_cfb8 xf mode w input \<noteq> Returns MBEDTLS_ERR_AES_BAD_INPUT_DATA s
   \<and> esp_aes_crypt_ctr xf w input \<noteq> Returns MBEDTLS_ERR_AES_BAD_INPUT_DATA s"
proof -
  have a: "ctx_p = NULL \<or> iv_off_p = NULL \<or> iv_p = NULL \<or> input_p = NULL \<or> output_p = NULL \<or> off w > 15
      \<longrightarrow> esp_aes_crypt_ofb xf ctx_p iv_off_p iv_p input_p output_p w input
            = Returns MBEDTLS_ERR_AES_BAD_INPUT_DATA (w, [])"
    by (simp add: esp_aes_crypt_ofb_def)
  have b: "esp_aes_crypt_ofb xf ctx_p iv_off_p iv_p input_p output_p w input
         = Returns MBEDTLS_ERR_AES_BAD_INPUT_DATA s
       \<longrightarrow> ctx_p = NULL \<or> iv_off_p = NULL \<or> iv_p = NULL \<or> input_p = NULL \<or> output_p = NULL
           \<or> off w > 15"
    by (auto simp add: esp_aes_crypt_ofb_def split: if_splits outcome.splits
        dest: release_return_status)
  have c: "esp_aes_crypt_ecb xf mode w input \<noteq> Returns MBEDTLS_ERR_AES_BAD_INPUT_DATA s"
    using ecb_status by blast
  have d: "esp_aes_crypt_cbc xf mode w input \<noteq> Returns MBEDTLS_ERR_AES_BAD_INPUT_DATA s"
    using cbc_status by blast
  have e: "esp_aes_crypt_cfb128 xf mode w input \<noteq> Returns MBEDTLS_ERR_AES_BAD_INPUT_DATA s"
    using cfb128_status by blast
  have f: "esp_aes_crypt_cfb8 xf mode w input \<noteq> Returns MBEDTLS_ERR_AES_BAD_INPUT_DATA s"
    using cfb8_status by blast
  have g: "esp_aes_crypt_ctr xf w input \<noteq> Returns MBEDTLS_ERR_AES_BAD_INPUT_DATA s"
    using ctr_status by blast
  show ?thesis
    by (intro conjI a b c d e f g)
qed

theorem ofb_alone_checks_arguments_witness:
  "esp_aes_crypt_ofb toy_xform Valid Valid NULL Valid Valid sample_world [1, 2]
      = Returns MBEDTLS_ERR_AES_BAD_INPUT_DATA (sample_world, [])
   \<and> esp_aes_crypt_ofb toy_xform Valid Valid Valid Valid Valid (sample_world\<lparr>off := 16\<rparr>) [1, 2]
      = Returns MBEDTLS_ERR_AES_BAD_INPUT_DATA (sample_world\<lparr>off := 16\<rparr>, [])"
  using ofb_alone_checks_arguments [of Valid Valid NULL Valid Valid sample_world toy_xform "[1, 2]"]
    ofb_alone_checks_arguments [of Valid Valid Valid Valid Valid "sample_world\<lparr>off := 16\<rparr>" toy_xform "[1, 2]"]
  by simp

section \<open>Loops: general lemmas\<close>


lemma run_loop_Returns_Cons:
  "run_loop body w (x # xs) = Returns u (w', out) \<longleftrightarrow>
     (\<exists>w1 bs cs. body w x = Returns () (w1, bs) \<and> run_loop body w1 xs = Returns () (w', cs)
        \<and> out = bs @ cs)"
  by (auto split: outcome.splits)

lemma run_loop_append:
  "run_loop body w (xs @ ys) =
     (case run_loop body w xs of
        OutOfBounds \<Rightarrow> OutOfBounds
      | Aborts s \<Rightarrow> Aborts s
      | Returns _ (w1, bs) \<Rightarrow>
          (case run_loop body w1 ys of
             OutOfBounds \<Rightarrow> OutOfBounds
           | Aborts (w2, cs) \<Rightarrow> Aborts (w2, bs @ cs)
           | Returns _ (w2, cs) \<Rightarrow> Returns () (w2, bs @ cs)))"
  by (induction xs arbitrary: w) (auto split: outcome.splits)

lemma run_loop_simulation:
  assumes step: "\<And>w v x w1 bs. R w v \<Longrightarrow> body1 w x = Returns () (w1, bs) \<Longrightarrow>
                   \<exists>v1. run_loop body2 v bs = Returns () (v1, [x]) \<and> R w1 v1"
    and "R w v" and "run_loop body1 w xs = Returns () (w', out)"
  shows "\<exists>v'. run_loop body2 v out = Returns () (v', xs) \<and> R w' v'"
  using assms(2,3)
proof (induction xs arbitrary: w v out)
  case Nil
  then show ?case by auto
next
  case (Cons x xs)
  from Cons.prems(2) obtain w1 bs cs where
    b: "body1 w x = Returns () (w1, bs)" and r: "run_loop body1 w1 xs = Returns () (w', cs)"
    and o: "out = bs @ cs"
    unfolding run_loop_Returns_Cons by blast
  from step [OF Cons.prems(1) b] obtain v1 where
    v1: "run_loop body2 v bs = Returns () (v1, [x])" and R1: "R w1 v1" by blast
  from Cons.IH [OF R1 r] obtain v' where
    v': "run_loop body2 v1 cs = Returns () (v', xs)" and R': "R w' v'" by blast
  show ?case using v1 v' R' by (auto simp add: o run_loop_append)
qed

section \<open>One round of each loop, with the key loaded\<close>


lemma hw_block_block_hw [simp]: "hw_block xf (block_hw xf h x) = hw_block xf h"
  by (rule ext) (simp add: hw_block_def)

lemma xor_cancel [simp]:
  "(a XOR c) XOR a = (c :: u8)" "a XOR (a XOR c) = c" "(c XOR a) XOR a = c"
  by (rule bit_word_eqI; auto simp: bit_simps)+

lemma xor_words_explicit:
  "store_block (xor_words
      (load_block [a0, a1, a2, a3, a4, a5, a6, a7, a8, a9, a10, a11, a12, a13, a14, a15])
      (load_block [b0, b1, b2, b3, b4, b5, b6, b7, b8, b9, b10, b11, b12, b13, b14, b15]))
   = xor_bytes [a0, a1, a2, a3, a4, a5, a6, a7, a8, a9, a10, a11, a12, a13, a14, a15]
               [b0, b1, b2, b3, b4, b5, b6, b7, b8, b9, b10, b11, b12, b13, b14, b15]"
  by (simp add: store_block_def xor_words_def load_block_def load_word_def word_of_bytes_xor
        xor_bytes_def)

lemma store_xor_words:
  assumes "length a = 16" "length b = 16"
  shows "store_block (xor_words (load_block a) (load_block b)) = xor_bytes a b"
  using xor_words_explicit list16 [OF assms(1)] list16 [OF assms(2)] by metis

lemma length_xor_bytes [simp]: "length (xor_bytes a b) = min (length a) (length b)"
  by (simp add: xor_bytes_def)

lemma xor_bytes_cancel [simp]:
  "length a = length b \<Longrightarrow> xor_bytes (xor_bytes a b) b = a"
  unfolding xor_bytes_def
  by (induction a b rule: list_induct2) auto

lemma off_mask [simp]: "unat ((n + 1) AND (0x0F :: size_t)) < 16"
proof -
  have "unat ((n + 1) AND (0x0F :: size_t)) \<le> unat (0x0F :: size_t)"
    by (rule word_and_le1 [THEN word_le_nat_alt [THEN iffD1]])
  then show ?thesis by simp
qed

lemma block_iv_loaded:
  assumes "loaded w" "length (iv w) = 16"
  shows "block_iv xf w =
     (if hw_block xf (hw w) (iv w) = iv w
      then Aborts (w\<lparr>hw := block_hw xf (hw w) (iv w), iv := zero16\<rparr>)
      else Returns () (w\<lparr>hw := block_hw xf (hw w) (iv w), iv := hw_block xf (hw w) (iv w),
                         rets := rets w @ [Some OK]\<rparr>))"
  using assms
  by (simp add: block_iv_def loaded_def esp_aes_block_loaded fixed_point_iff)

lemma cfb128_encrypt_step:
  assumes "loaded w" "length (iv w) = 16" "unat (off w) < 16"
  shows "cfb128_encrypt_body xf w c =
     (if off w = 0 \<and> hw_block xf (hw w) (iv w) = iv w
      then Aborts (w\<lparr>hw := block_hw xf (hw w) (iv w), iv := zero16\<rparr>, [])
      else
        let ks = (if off w = 0 then hw_block xf (hw w) (iv w) else iv w)
        in Returns () (w\<lparr>hw := (if off w = 0 then block_hw xf (hw w) (iv w) else hw w),
                          iv := ks[unat (off w) := ks ! unat (off w) XOR c],
                          off := (off w + 1) AND 0x0F,
                          rets := rets w @ [if off w = 0 then Some OK else None]\<rparr>,
                       [ks ! unat (off w) XOR c]))"
  using assms
  by (simp add: cfb128_encrypt_body_def block_iv_at_0_def block_iv_loaded Let_def)

lemma cfb128_decrypt_step:
  assumes "loaded w" "length (iv w) = 16" "unat (off w) < 16"
  shows "cfb128_decrypt_body xf w c =
     (if off w = 0 \<and> hw_block xf (hw w) (iv w) = iv w
      then Aborts (w\<lparr>hw := block_hw xf (hw w) (iv w), iv := zero16\<rparr>, [])
      else
        let ks = (if off w = 0 then hw_block xf (hw w) (iv w) else iv w)
        in Returns () (w\<lparr>hw := (if off w = 0 then block_hw xf (hw w) (iv w) else hw w),
                          iv := ks[unat (off w) := c],
                          off := (off w + 1) AND 0x0F,
                          rets := rets w @ [if off w = 0 then Some OK else None]\<rparr>,
                       [c XOR ks ! unat (off w)]))"
  using assms
  by (simp add: cfb128_decrypt_body_def block_iv_at_0_def block_iv_loaded Let_def)

lemma ofb_step:
  assumes "loaded w" "length (iv w) = 16" "unat (off w) < 16"
  shows "ofb_body xf w c =
     (if off w = 0 \<and> hw_block xf (hw w) (iv w) = iv w
      then Aborts (w\<lparr>hw := block_hw xf (hw w) (iv w), iv := zero16\<rparr>, [])
      else
        let ks = (if off w = 0 then hw_block xf (hw w) (iv w) else iv w)
        in Returns () (w\<lparr>hw := (if off w = 0 then block_hw xf (hw w) (iv w) else hw w),
                          iv := ks,
                          off := (off w + 1) AND 0x0F,
                          rets := rets w @ [if off w = 0 then Some OK else None]\<rparr>,
                       [c XOR ks ! unat (off w)]))"
  using assms
  by (simp add: ofb_body_def block_iv_at_0_def block_iv_loaded Let_def)

lemma cfb8_step:
  assumes "loaded w" "length (iv w) = 16" "mode = ESP_AES_ENCRYPT \<or> mode = ESP_AES_DECRYPT"
  shows "cfb8_body xf mode w x =
     (if hw_block xf (hw w) (iv w) = iv w
      then Aborts (w\<lparr>hw := block_hw xf (hw w) (iv w), iv := zero16\<rparr>, [])
      else
        let c = hw_block xf (hw w) (iv w) ! 0 XOR x
        in Returns () (w\<lparr>hw := block_hw xf (hw w) (iv w),
                          iv := drop 1 (iv w) @ [if mode = ESP_AES_ENCRYPT then c else x],
                          rets := rets w @ [Some OK]\<rparr>,
                       [c]))"
  using assms
  by (auto simp add: cfb8_body_def block_iv_loaded Let_def memcpy_def ESP_AES_ENCRYPT_def
        ESP_AES_DECRYPT_def list_update_append)

lemma ctr_step:
  assumes "loaded w" "length (nonce_counter w) = 16" "unat (off w) < 16"
  shows "ctr_body xf w c =
     (if off w = 0 \<and> hw_block xf (hw w) (nonce_counter w) = nonce_counter w
      then Aborts (w\<lparr>hw := block_hw xf (hw w) (nonce_counter w), stream_block := zero16\<rparr>, [])
      else
        let sb = (if off w = 0 then hw_block xf (hw w) (nonce_counter w) else stream_block w)
        in Returns () (w\<lparr>hw := (if off w = 0 then block_hw xf (hw w) (nonce_counter w) else hw w),
                          nonce_counter := (if off w = 0 then increment_counter 16 (nonce_counter w)
                                            else nonce_counter w),
                          stream_block := sb,
                          off := (off w + 1) AND 0x0F,
                          rets := rets w @ [if off w = 0 then Some OK else None]\<rparr>,
                       [c XOR sb ! unat (off w)]))"
  using assms
  by (simp add: ctr_body_def ctr_block_at_0_def loaded_def esp_aes_block_loaded fixed_point_iff
        Let_def)

lemma cbc_encrypt_step:
  assumes "loaded w" "length (iv w) = 16" "length blk = 16"
  shows "cbc_encrypt_body xf w blk =
     (let x = xor_bytes blk (iv w)
      in if hw_block xf (hw w) x = x
         then Aborts (w\<lparr>hw := block_hw xf (hw w) x\<rparr>, zero16)
         else Returns () (w\<lparr>hw := block_hw xf (hw w) x, iv := hw_block xf (hw w) x,
                            rets := rets w @ [Some OK]\<rparr>,
                          hw_block xf (hw w) x))"
  using assms
  by (simp add: cbc_encrypt_body_def loaded_def esp_aes_block_loaded fixed_point_iff Let_def
        store_xor_words memcpy_def)

lemma cbc_decrypt_step:
  assumes "loaded w" "length (iv w) = 16" "length blk = 16"
  shows "cbc_decrypt_body xf w blk =
     (if hw_block xf (hw w) blk = blk
      then Aborts (w\<lparr>hw := block_hw xf (hw w) blk\<rparr>, zero16)
      else Returns () (w\<lparr>hw := block_hw xf (hw w) blk, iv := blk,
                         rets := rets w @ [Some OK]\<rparr>,
                       xor_bytes (hw_block xf (hw w) blk) (iv w)))"
  using assms
  by (simp add: cbc_decrypt_body_def loaded_def esp_aes_block_loaded fixed_point_iff Let_def
        store_xor_words memcpy_def)

section \<open>The programmed key registers\<close>


lemma fold_write_key_sel [simp]:
  "mode_reg (fold (\<lambda>i. write_key_reg i (f i)) [0 ..< n] h) = mode_reg h"
  "text_regs (fold (\<lambda>i. write_key_reg i (f i)) [0 ..< n] h) = text_regs h"
  "in_critical (fold (\<lambda>i. write_key_reg i (f i)) [0 ..< n] h) = in_critical h"
  "aes_enabled (fold (\<lambda>i. write_key_reg i (f i)) [0 ..< n] h) = aes_enabled h"
  "length (key_regs (fold (\<lambda>i. write_key_reg i (f i)) [0 ..< n] h)) = length (key_regs h)"
  by (induction n; simp add: write_key_reg_def)+

lemma fold_write_key_nth:
  "i < length (key_regs h) \<Longrightarrow>
   key_regs (fold (\<lambda>i. write_key_reg i (f i)) [0 ..< n] h) ! i = (if i < n then f i else key_regs h ! i)"
  by (induction n) (auto simp add: write_key_reg_def nth_list_update less_Suc_eq)

lemma take_fold_write_key:
  assumes "n \<le> length (key_regs h)"
  shows "take n (key_regs (fold (\<lambda>i. write_key_reg i (f i)) [0 ..< n] h)) = map f [0 ..< n]"
  using assms by (intro nth_equalityI) (simp_all add: fold_write_key_nth)

lemma keyed_hw_sel [simp]:
  "mode_reg (keyed_hw c mode h) = (if mode = ESP_AES_ENCRYPT then 0 else 4) + (ucast (key_bytes c) div 8 - 2)"
  "in_critical (keyed_hw c mode h) = in_critical h"
  "aes_enabled (keyed_hw c mode h) = aes_enabled h"
  "text_regs (keyed_hw c mode h) = text_regs h"
  "length (key_regs (keyed_hw c mode h)) = length (key_regs h)"
  by (simp_all add: keyed_hw_def write_mode_reg_def)

lemma take_key_regs_keyed_hw:
  assumes "unat (key_bytes c) div 4 \<le> length (key_regs h)"
  shows "take (unat (key_bytes c) div 4) (key_regs (keyed_hw c mode h))
           = map (load_word (key c)) [0 ..< unat (key_bytes c) div 4]"
  using take_fold_write_key [OF assms] by (simp add: keyed_hw_def write_mode_reg_def)

lemma key_words_of_mode:
  assumes "valid_key_length c"
  shows "4 + 2 * unat (mode_reg (keyed_hw c mode h) AND 3) = unat (key_bytes c) div 4"
  using assms unfolding valid_key_length_cases
  by (elim disjE) simp_all

lemma keyed_same_block:
  assumes "keyed xf" "valid_key_length c" "key c' = key c" "key_bytes c' = key_bytes c"
    and "length (key_regs h) = 8" "length (key_regs h') = 8"
  shows "hw_block xf (keyed_hw c' mode h') = hw_block xf (keyed_hw c mode h)"
proof (rule ext)
  fix x
  have v': "valid_key_length c'" using assms(2,4) by (simp add: valid_key_length_cases)
  have n: "unat (key_bytes c) div 4 \<le> 8"
    using assms(2) unfolding valid_key_length_cases by (elim disjE) simp_all
  have m: "mode_reg (keyed_hw c' mode h') = mode_reg (keyed_hw c mode h)"
    using assms(4) by simp
  have t: "take (unat (key_bytes c) div 4) (key_regs (keyed_hw c' mode h'))
         = take (unat (key_bytes c) div 4) (key_regs (keyed_hw c mode h))"
    using take_key_regs_keyed_hw [of c h mode] take_key_regs_keyed_hw [of c' h' mode] n assms(3-6)
    by simp
  have "xf (mode_reg (keyed_hw c mode h)) (key_regs (keyed_hw c' mode h')) (load_block x)
      = xf (mode_reg (keyed_hw c mode h)) (key_regs (keyed_hw c mode h)) (load_block x)"
    using assms(1) t key_words_of_mode [OF assms(2), of mode h]
    unfolding keyed_def by metis
  then show "hw_block xf (keyed_hw c' mode h') x = hw_block xf (keyed_hw c mode h) x"
    by (simp add: hw_block_def m del: keyed_hw_sel)
qed

lemma keyed_inverse_block:
  assumes "keyed xf" "decrypt_inverts_encrypt xf" "valid_key_length c"
    and "key c' = key c" "key_bytes c' = key_bytes c"
    and "length (key_regs h) = 8" "length (key_regs h') = 8" "length x = 16"
  shows "hw_block xf (keyed_hw c' ESP_AES_DECRYPT h')
           (hw_block xf (keyed_hw c ESP_AES_ENCRYPT h) x) = x"
proof -
  let ?he = "keyed_hw c ESP_AES_ENCRYPT h"
  let ?hd = "keyed_hw c' ESP_AES_DECRYPT h'"
  let ?y = "xf (mode_reg ?he) (key_regs ?he) (load_block x)"
  have n: "unat (key_bytes c) div 4 \<le> 8"
    using assms(3) unfolding valid_key_length_cases by (elim disjE) simp_all
  have me: "mode_reg ?he < 3" and md: "mode_reg ?hd = mode_reg ?he + 4"
    using assms(3,5) unfolding valid_key_length_cases
    by (auto simp add: ESP_AES_ENCRYPT_def ESP_AES_DECRYPT_def)
  have t: "take (unat (key_bytes c) div 4) (key_regs ?hd)
         = take (unat (key_bytes c) div 4) (key_regs ?he)"
    using take_key_regs_keyed_hw [of c h ESP_AES_ENCRYPT]
      take_key_regs_keyed_hw [of c' h' ESP_AES_DECRYPT] n assms(4-7)
    by simp
  have v': "valid_key_length c'" using assms(3,5) by (simp add: valid_key_length_cases)
  have kw: "4 + 2 * unat (mode_reg ?hd AND 3) = unat (key_bytes c) div 4"
    using key_words_of_mode [OF v', of ESP_AES_DECRYPT h'] assms(5) by simp
  have "xf (mode_reg ?hd) (key_regs ?hd) ?y = xf (mode_reg ?hd) (key_regs ?he) ?y"
    using assms(1) t kw unfolding keyed_def by metis
  also have "\<dots> = load_block x"
    using assms(2) me unfolding decrypt_inverts_encrypt_def md by blast
  finally show ?thesis
    by (simp add: hw_block_def store_load_block [OF assms(8)] del: keyed_hw_sel)
qed

section \<open>Decrypting what was encrypted, round by round\<close>


lemma length_increment_counter [simp]: "length (increment_counter j nc) = length nc"
  by (induction j arbitrary: nc) (auto simp add: Let_def)

lemma cfb128_step_sim:
  assumes "stream_rel xf w v" "cfb128_encrypt_body xf w x = Returns () (w1, bs)"
  shows "\<exists>v1. run_loop (cfb128_decrypt_body xf) v bs = Returns () (v1, [x]) \<and> stream_rel xf w1 v1"
  using assms
  by (auto simp add: stream_rel_def cfb128_encrypt_step cfb128_decrypt_step Let_def loaded_def
        split: if_splits)

lemma ofb_step_sim:
  assumes "stream_rel xf w v" "ofb_body xf w x = Returns () (w1, bs)"
  shows "\<exists>v1. run_loop (ofb_body xf) v bs = Returns () (v1, [x]) \<and> stream_rel xf w1 v1"
  using assms
  by (auto simp add: stream_rel_def ofb_step Let_def loaded_def split: if_splits)

lemma cfb8_step_sim:
  assumes "cfb8_rel xf w v" "cfb8_body xf ESP_AES_ENCRYPT w x = Returns () (w1, bs)"
  shows "\<exists>v1. run_loop (cfb8_body xf ESP_AES_DECRYPT) v bs = Returns () (v1, [x]) \<and> cfb8_rel xf w1 v1"
  using assms
  by (auto simp add: cfb8_rel_def cfb8_step Let_def loaded_def ESP_AES_ENCRYPT_def
        ESP_AES_DECRYPT_def split: if_splits)

lemma ctr_step_sim:
  assumes "ctr_rel xf w v" "ctr_body xf w x = Returns () (w1, bs)"
  shows "\<exists>v1. run_loop (ctr_body xf) v bs = Returns () (v1, [x]) \<and> ctr_rel xf w1 v1"
  using assms
  by (auto simp add: ctr_rel_def ctr_step Let_def loaded_def split: if_splits)

lemma blocks16_Nil [simp]: "blocks16 [] = []"
  by (simp add: blocks16.simps)

lemma blocks16_append:
  assumes "length bs = 16"
  shows "blocks16 (bs @ cs) = bs # blocks16 cs"
  using assms by (subst blocks16.simps) auto

lemma blocks16_lengths:
  "length xs mod 16 = 0 \<Longrightarrow> b \<in> set (blocks16 xs) \<Longrightarrow> length b = 16"
proof (induction xs rule: blocks16.induct)
  case (1 bs)
  show ?case
  proof (cases "bs = []")
    case True
    with 1 show ?thesis by simp
  next
    case False
    have l: "16 \<le> length bs"
      using False "1.prems"(1) by (cases "length bs < 16") auto
    then have m: "length (drop 16 bs) mod 16 = 0"
      using "1.prems"(1) le_mod_geq [of 16 "length bs"] by simp
    from "1.prems"(2) have "b = take 16 bs \<or> b \<in> set (blocks16 (drop 16 bs))"
      using False by (subst (asm) blocks16.simps) auto
    then show ?thesis
      using "1.IH" [OF False m] l by auto
  qed
qed

lemma concat_blocks16 [simp]: "concat (blocks16 xs) = xs"
proof (induction xs rule: blocks16.induct)
  case (1 bs)
  show ?case
  proof (cases "bs = []")
    case True
    then show ?thesis by simp
  next
    case False
    then show ?thesis
      using "1.IH" by (subst blocks16.simps) simp
  qed
qed

lemma cbc_loop_sim:
  assumes "cbc_rel xf w v" "\<forall>x \<in> set xs. length x = 16"
    and "run_loop (cbc_encrypt_body xf) w xs = Returns () (w', out)"
  shows "\<exists>v'. run_loop (cbc_decrypt_body xf) v (blocks16 out) = Returns () (v', concat xs)
           \<and> cbc_rel xf w' v' \<and> length out mod 16 = 0"
  using assms
proof (induction xs arbitrary: w v out)
  case Nil
  then show ?case by auto
next
  case (Cons x xs)
  from Cons.prems(3) obtain w1 bs cs where
    b: "cbc_encrypt_body xf w x = Returns () (w1, bs)"
    and r: "run_loop (cbc_encrypt_body xf) w1 xs = Returns () (w', cs)"
    and o: "out = bs @ cs"
    unfolding run_loop_Returns_Cons by blast
  have lx: "length x = 16" using Cons.prems(2) by simp
  have lw: "loaded w" "length (iv w) = 16" "loaded v" "length (iv v) = 16" "iv v = iv w"
    using Cons.prems(1) by (simp_all add: cbc_rel_def)
  let ?y = "xor_bytes x (iv w)"
  have ly: "length ?y = 16" using lx lw by simp
  from b have ne: "hw_block xf (hw w) ?y \<noteq> ?y"
    and w1: "w1 = w\<lparr>hw := block_hw xf (hw w) ?y, iv := hw_block xf (hw w) ?y,
                     rets := rets w @ [Some OK]\<rparr>"
    and bs: "bs = hw_block xf (hw w) ?y"
    by (auto simp add: cbc_encrypt_step [OF lw(1,2) lx] Let_def split: if_splits)
  have inv: "hw_block xf (hw v) bs = ?y"
    using Cons.prems(1) ly by (simp add: cbc_rel_def bs)
  define v1 where "v1 = v\<lparr>hw := block_hw xf (hw v) bs, iv := bs, rets := rets v @ [Some OK]\<rparr>"
  have lbs: "length bs = 16" by (simp add: bs)
  have ne': "?y \<noteq> bs" using ne by (simp add: bs)
  have d: "cbc_decrypt_body xf v bs = Returns () (v1, x)"
    using ne' inv lx lw cbc_decrypt_step [OF lw(3,4) lbs, of xf] by (simp add: v1_def)
  have R1: "cbc_rel xf w1 v1"
    using Cons.prems(1) by (simp add: cbc_rel_def w1 v1_def bs loaded_def)
  from Cons.IH [OF R1 _ r] Cons.prems(2) obtain v' where
    v': "run_loop (cbc_decrypt_body xf) v1 (blocks16 cs) = Returns () (v', concat xs)"
    and R': "cbc_rel xf w' v'" and lc: "length cs mod 16 = 0"
    by auto
  show ?case
    using d v' R' lc lbs by (simp add: o blocks16_append)
qed

section \<open>The mode functions with a valid key\<close>


lemma returned_ok_eq:
  "returned_ok r \<Longrightarrow> r = Returns OK (state_of r, output_of r)"
  by (auto simp add: returned_ok_def state_of_def output_of_def split: outcome.splits)

lemma release_return_OK:
  "release_return r = Returns st (w', out) \<longleftrightarrow>
     st = OK \<and> (\<exists>w1. r = Returns () (w1, out) \<and> w' = release w1)"
  by (auto simp add: release_return_def split: outcome.splits)

lemma prepared_sel [simp]:
  "iv (prepared m w) = iv w"
  "off (prepared m w) = off w"
  "nonce_counter (prepared m w) = nonce_counter w"
  "stream_block (prepared m w) = stream_block w"
  "rets (prepared m w) = rets w"
  "hw (prepared m w) = keyed_hw (ctx w) m (esp_aes_acquire_hardware (hw w))"
  "ctx (prepared m w) = (ctx w)\<lparr>key_in_hardware := key_bytes (ctx w)\<rparr>"
  "loaded (prepared m w)"
  by (simp_all add: prepared_def loaded_def)

lemma acquire_key_regs [simp]:
  "key_regs (esp_aes_acquire_hardware h) = key_regs h"
  by (simp add: esp_aes_acquire_hardware_def)

lemma modes_differ [simp]:
  "ESP_AES_ENCRYPT \<noteq> ESP_AES_DECRYPT" "ESP_AES_DECRYPT \<noteq> ESP_AES_ENCRYPT"
  by (simp_all add: ESP_AES_ENCRYPT_def ESP_AES_DECRYPT_def)

lemma cfb128_valid:
  "valid_key_length (ctx w) \<Longrightarrow> esp_aes_crypt_cfb128 xf mode w input =
     release_return
       (if mode = ESP_AES_DECRYPT
        then run_loop (cfb128_decrypt_body xf) (prepared ESP_AES_ENCRYPT w) input
        else run_loop (cfb128_encrypt_body xf) (prepared ESP_AES_ENCRYPT w) input)"
  by (simp add: esp_aes_crypt_cfb128_def setkey_hardware_prepared)

lemma cfb8_valid:
  "valid_key_length (ctx w) \<Longrightarrow> esp_aes_crypt_cfb8 xf mode w input =
     release_return (run_loop (cfb8_body xf mode) (prepared ESP_AES_ENCRYPT w) input)"
  by (simp add: esp_aes_crypt_cfb8_def setkey_hardware_prepared)

lemma ctr_valid:
  "valid_key_length (ctx w) \<Longrightarrow> esp_aes_crypt_ctr xf w input =
     release_return (run_loop (ctr_body xf) (prepared ESP_AES_ENCRYPT w) input)"
  by (simp add: esp_aes_crypt_ctr_def setkey_hardware_prepared)

lemma ofb_valid:
  "valid_key_length (ctx w) \<Longrightarrow> off w \<le> 15 \<Longrightarrow>
   esp_aes_crypt_ofb xf Valid Valid Valid Valid Valid w input =
     release_return (run_loop (ofb_body xf) (prepared ESP_AES_ENCRYPT w) input)"
proof -
  assume v: "valid_key_length (ctx w)" and "off w \<le> 15"
  then have "\<not> 15 < off w" by simp
  then show ?thesis using v by (simp add: esp_aes_crypt_ofb_def setkey_hardware_prepared)
qed

lemma cbc_valid:
  "valid_key_length (ctx w) \<Longrightarrow> length input mod 16 = 0 \<Longrightarrow>
   esp_aes_crypt_cbc xf mode w input =
     release_return
       (if mode = ESP_AES_DECRYPT
        then run_loop (cbc_decrypt_body xf) (prepared mode w) (blocks16 input)
        else run_loop (cbc_encrypt_body xf) (prepared mode w) (blocks16 input))"
  by (simp add: esp_aes_crypt_cbc_def setkey_hardware_prepared)

lemma ecb_valid:
  "valid_key_length (ctx w) \<Longrightarrow> length input = 16 \<Longrightarrow>
   esp_aes_crypt_ecb xf mode w input =
     (if hw_block xf (hw (prepared mode w)) input = input
      then Aborts ((prepared mode w)\<lparr>hw := block_hw xf (hw (prepared mode w)) input\<rparr>, zero16)
      else Returns OK (release ((prepared mode w)\<lparr>hw := block_hw xf (hw (prepared mode w)) input\<rparr>),
                       hw_block xf (hw (prepared mode w)) input))"
  by (simp add: esp_aes_crypt_ecb_def setkey_hardware_prepared esp_aes_block_loaded
        fixed_point_iff del: prepared_sel(6))

lemma same_key_valid:
  "same_key w v \<Longrightarrow> valid_key_length (ctx w) \<Longrightarrow> valid_key_length (ctx v)"
  by (simp add: same_key_def valid_key_length_cases)

lemma prepared_same_block:
  assumes "keyed xf" "valid_key_length (ctx w)" "same_key w v"
    and "length (key_regs (hw w)) = 8" "length (key_regs (hw v)) = 8"
  shows "hw_block xf (hw (prepared m v)) = hw_block xf (hw (prepared m w))"
proof -
  have "hw_block xf (keyed_hw (ctx v) m (esp_aes_acquire_hardware (hw v)))
      = hw_block xf (keyed_hw (ctx w) m (esp_aes_acquire_hardware (hw w)))"
    using assms by (intro keyed_same_block) (simp_all add: same_key_def)
  then show ?thesis by simp
qed

lemma prepared_inverse_block:
  assumes "keyed xf" "decrypt_inverts_encrypt xf" "valid_key_length (ctx w)" "same_key w v"
    and "length (key_regs (hw w)) = 8" "length (key_regs (hw v)) = 8" "length x = 16"
  shows "hw_block xf (hw (prepared ESP_AES_DECRYPT v))
           (hw_block xf (hw (prepared ESP_AES_ENCRYPT w)) x) = x"
proof -
  have "hw_block xf (keyed_hw (ctx v) ESP_AES_DECRYPT (esp_aes_acquire_hardware (hw v)))
          (hw_block xf (keyed_hw (ctx w) ESP_AES_ENCRYPT (esp_aes_acquire_hardware (hw w))) x) = x"
    using assms by (intro keyed_inverse_block) (simp_all add: same_key_def)
  then show ?thesis by simp
qed


section \<open>Round trip\<close>


lemma toy_xform_keyed: "keyed toy_xform"
  unfolding keyed_def
proof (intro allI impI)
  fix m :: u32 and k k' :: "u32 list" and t :: text_block
  assume e: "take (4 + 2 * unat (m AND 3)) k = take (4 + 2 * unat (m AND 3)) k'"
  have "\<And>i. i < 4 \<Longrightarrow> k ! i = k' ! i"
  proof -
    fix i :: nat assume i: "i < 4"
    have "take (4 + 2 * unat (m AND 3)) k ! i = k ! i"
         "take (4 + 2 * unat (m AND 3)) k' ! i = k' ! i"
      using i by simp_all
    then show "k ! i = k' ! i" using e by simp
  qed
  then have "k ! 0 = k' ! 0" "k ! 1 = k' ! 1" "k ! 2 = k' ! 2" "k ! 3 = k' ! 3" by simp_all
  then show "toy_xform m k t = toy_xform m k' t"
    by (cases t) (simp add: toy_xform_def)
qed

lemma toy_xform_inverse: "decrypt_inverts_encrypt toy_xform"
  unfolding decrypt_inverts_encrypt_def
proof (intro allI impI)
  fix m :: u32 and k :: "u32 list" and t :: text_block
  assume "m < 3"
  then have "unat m < 3" by (simp add: word_less_nat_alt)
  then have "unat m = 0 \<or> unat m = 1 \<or> unat m = 2" by arith
  then have "m = 0 \<or> m = 1 \<or> m = 2" by (auto simp add: word_unat_eq_iff)
  then show "toy_xform (m + 4) k (toy_xform m k t) = t"
    by (cases t) (auto simp add: toy_xform_def)
qed

lemma stream_rel_prepared:
  assumes "keyed xf" "valid_key_length (ctx w)" "same_key w v"
    and "length (key_regs (hw w)) = 8" "length (key_regs (hw v)) = 8"
    and "iv v = iv w" "length (iv w) = 16" "off v = off w" "unat (off w) < 16"
  shows "stream_rel xf (prepared m w) (prepared m v)"
  using assms prepared_same_block [OF assms(1-5), of m]
  by (simp add: stream_rel_def del: prepared_sel(6))

lemma cfb8_rel_prepared:
  assumes "keyed xf" "valid_key_length (ctx w)" "same_key w v"
    and "length (key_regs (hw w)) = 8" "length (key_regs (hw v)) = 8"
    and "iv v = iv w" "length (iv w) = 16"
  shows "cfb8_rel xf (prepared m w) (prepared m v)"
  using assms prepared_same_block [OF assms(1-5), of m]
  by (simp add: cfb8_rel_def del: prepared_sel(6))

lemma ctr_rel_prepared:
  assumes "keyed xf" "valid_key_length (ctx w)" "same_key w v"
    and "length (key_regs (hw w)) = 8" "length (key_regs (hw v)) = 8"
    and "nonce_counter v = nonce_counter w" "length (nonce_counter w) = 16"
    and "off v = off w" "off w = 0"
  shows "ctr_rel xf (prepared m w) (prepared m v)"
  using assms prepared_same_block [OF assms(1-5), of m]
  by (simp add: ctr_rel_def del: prepared_sel(6))

lemma cbc_rel_prepared:
  assumes "keyed xf" "decrypt_inverts_encrypt xf" "valid_key_length (ctx w)" "same_key w v"
    and "length (key_regs (hw w)) = 8" "length (key_regs (hw v)) = 8"
    and "iv v = iv w" "length (iv w) = 16"
  shows "cbc_rel xf (prepared ESP_AES_ENCRYPT w) (prepared ESP_AES_DECRYPT v)"
  using assms prepared_inverse_block [OF assms(1-6)]
  by (simp add: cbc_rel_def del: prepared_sel(6))

lemma ecb_round_trip:
  assumes "keyed xf" "decrypt_inverts_encrypt xf" "valid_key_length (ctx we)" "same_key we wd"
    and "length (key_regs (hw we)) = 8" "length (key_regs (hw wd)) = 8"
    and "length pt = 16"
    and "esp_aes_crypt_ecb xf ESP_AES_ENCRYPT we pt = Returns OK (we', ct)"
  shows "\<exists>wd'. esp_aes_crypt_ecb xf ESP_AES_DECRYPT wd ct = Returns OK (wd', pt)"
proof -
  let ?E = "hw_block xf (hw (prepared ESP_AES_ENCRYPT we))"
  from assms(8) have ct: "ct = ?E pt" and ne: "?E pt \<noteq> pt"
    by (auto simp add: ecb_valid [OF assms(3,7)] split: if_splits simp del: prepared_sel(6))
  have l: "length ct = 16" by (simp add: ct del: prepared_sel(6))
  have d: "hw_block xf (hw (prepared ESP_AES_DECRYPT wd)) ct = pt"
    unfolding ct by (rule prepared_inverse_block [OF assms(1-7)])
  have n: "pt \<noteq> ct" using ne ct by simp
  show ?thesis
    unfolding ecb_valid [OF same_key_valid [OF assms(4,3)] l] d using n by simp
qed

lemma cbc_round_trip:
  assumes "keyed xf" "decrypt_inverts_encrypt xf" "valid_key_length (ctx we)" "same_key we wd"
    and "length (key_regs (hw we)) = 8" "length (key_regs (hw wd)) = 8"
    and "iv wd = iv we" "length (iv we) = 16"
    and "esp_aes_crypt_cbc xf ESP_AES_ENCRYPT we pt = Returns OK (we', ct)"
  shows "\<exists>wd'. esp_aes_crypt_cbc xf ESP_AES_DECRYPT wd ct = Returns OK (wd', pt)"
proof -
  have m: "length pt mod 16 = 0"
    using assms(9) by (auto simp add: esp_aes_crypt_cbc_def split: if_splits)
  from assms(9) obtain w1 where
    r: "run_loop (cbc_encrypt_body xf) (prepared ESP_AES_ENCRYPT we) (blocks16 pt) = Returns () (w1, ct)"
    by (auto simp add: cbc_valid [OF assms(3) m] release_return_OK)
  have b: "\<forall>x \<in> set (blocks16 pt). length x = 16"
    using blocks16_lengths [OF m] by blast
  from cbc_loop_sim [OF cbc_rel_prepared [OF assms(1-8)] b r] obtain v' where
    d: "run_loop (cbc_decrypt_body xf) (prepared ESP_AES_DECRYPT wd) (blocks16 ct) = Returns () (v', pt)"
    and lc: "length ct mod 16 = 0"
    by auto
  show ?thesis
    using d by (simp add: cbc_valid [OF same_key_valid [OF assms(4,3)] lc] release_return_OK)
qed

lemma cfb128_round_trip:
  assumes "keyed xf" "valid_key_length (ctx we)" "same_key we wd"
    and "length (key_regs (hw we)) = 8" "length (key_regs (hw wd)) = 8"
    and "iv wd = iv we" "length (iv we) = 16" "off wd = off we" "unat (off we) < 16"
    and "esp_aes_crypt_cfb128 xf ESP_AES_ENCRYPT we pt = Returns OK (we', ct)"
  shows "\<exists>wd'. esp_aes_crypt_cfb128 xf ESP_AES_DECRYPT wd ct = Returns OK (wd', pt)"
proof -
  from assms(10) obtain w1 where
    r: "run_loop (cfb128_encrypt_body xf) (prepared ESP_AES_ENCRYPT we) pt = Returns () (w1, ct)"
    by (auto simp add: cfb128_valid [OF assms(2)] release_return_OK)
  have "\<exists>v'. run_loop (cfb128_decrypt_body xf) (prepared ESP_AES_ENCRYPT wd) ct = Returns () (v', pt) \<and> stream_rel xf w1 v'"
    by (rule run_loop_simulation [of "stream_rel xf" "cfb128_encrypt_body xf" "cfb128_decrypt_body xf",
          OF _ stream_rel_prepared [OF assms(1-9), of ESP_AES_ENCRYPT] r]) (rule cfb128_step_sim)
  then obtain v' where
    "run_loop (cfb128_decrypt_body xf) (prepared ESP_AES_ENCRYPT wd) ct = Returns () (v', pt)"
    by blast
  then show ?thesis
    by (simp add: cfb128_valid [OF same_key_valid [OF assms(3,2)]] release_return_OK)
qed

lemma cfb8_round_trip:
  assumes "keyed xf" "valid_key_length (ctx we)" "same_key we wd"
    and "length (key_regs (hw we)) = 8" "length (key_regs (hw wd)) = 8"
    and "iv wd = iv we" "length (iv we) = 16"
    and "esp_aes_crypt_cfb8 xf ESP_AES_ENCRYPT we pt = Returns OK (we', ct)"
  shows "\<exists>wd'. esp_aes_crypt_cfb8 xf ESP_AES_DECRYPT wd ct = Returns OK (wd', pt)"
proof -
  from assms(8) obtain w1 where
    r: "run_loop (cfb8_body xf ESP_AES_ENCRYPT) (prepared ESP_AES_ENCRYPT we) pt = Returns () (w1, ct)"
    by (auto simp add: cfb8_valid [OF assms(2)] release_return_OK)
  have "\<exists>v'. run_loop (cfb8_body xf ESP_AES_DECRYPT) (prepared ESP_AES_ENCRYPT wd) ct = Returns () (v', pt) \<and> cfb8_rel xf w1 v'"
    by (rule run_loop_simulation [of "cfb8_rel xf" "cfb8_body xf ESP_AES_ENCRYPT" "cfb8_body xf ESP_AES_DECRYPT",
          OF _ cfb8_rel_prepared [OF assms(1-7), of ESP_AES_ENCRYPT] r]) (rule cfb8_step_sim)
  then obtain v' where
    "run_loop (cfb8_body xf ESP_AES_DECRYPT) (prepared ESP_AES_ENCRYPT wd) ct = Returns () (v', pt)"
    by blast
  then show ?thesis
    by (simp add: cfb8_valid [OF same_key_valid [OF assms(3,2)]] release_return_OK)
qed

lemma ctr_round_trip:
  assumes "keyed xf" "valid_key_length (ctx we)" "same_key we wd"
    and "length (key_regs (hw we)) = 8" "length (key_regs (hw wd)) = 8"
    and "nonce_counter wd = nonce_counter we" "length (nonce_counter we) = 16"
    and "off wd = off we" "off we = 0"
    and "esp_aes_crypt_ctr xf we pt = Returns OK (we', ct)"
  shows "\<exists>wd'. esp_aes_crypt_ctr xf wd ct = Returns OK (wd', pt)"
proof -
  from assms(10) obtain w1 where
    r: "run_loop (ctr_body xf) (prepared ESP_AES_ENCRYPT we) pt = Returns () (w1, ct)"
    by (auto simp add: ctr_valid [OF assms(2)] release_return_OK)
  have "\<exists>v'. run_loop (ctr_body xf) (prepared ESP_AES_ENCRYPT wd) ct = Returns () (v', pt) \<and> ctr_rel xf w1 v'"
    by (rule run_loop_simulation [of "ctr_rel xf" "ctr_body xf" "ctr_body xf",
          OF _ ctr_rel_prepared [OF assms(1-9), of ESP_AES_ENCRYPT] r]) (rule ctr_step_sim)
  then obtain v' where
    "run_loop (ctr_body xf) (prepared ESP_AES_ENCRYPT wd) ct = Returns () (v', pt)"
    by blast
  then show ?thesis
    by (simp add: ctr_valid [OF same_key_valid [OF assms(3,2)]] release_return_OK)
qed

lemma ofb_round_trip:
  assumes "keyed xf" "valid_key_length (ctx we)" "same_key we wd"
    and "length (key_regs (hw we)) = 8" "length (key_regs (hw wd)) = 8"
    and "iv wd = iv we" "length (iv we) = 16" "off wd = off we" "unat (off we) < 16"
    and "esp_aes_crypt_ofb xf Valid Valid Valid Valid Valid we pt = Returns OK (we', ct)"
  shows "\<exists>wd'. esp_aes_crypt_ofb xf Valid Valid Valid Valid Valid wd ct = Returns OK (wd', pt)"
proof -
  have o: "off we \<le> 15" using assms(9) by (simp add: word_le_nat_alt)
  then have o': "off wd \<le> 15" using assms(8) by simp
  from assms(10) obtain w1 where
    r: "run_loop (ofb_body xf) (prepared ESP_AES_ENCRYPT we) pt = Returns () (w1, ct)"
    by (auto simp add: ofb_valid [OF assms(2) o] release_return_OK)
  have "\<exists>v'. run_loop (ofb_body xf) (prepared ESP_AES_ENCRYPT wd) ct = Returns () (v', pt) \<and> stream_rel xf w1 v'"
    by (rule run_loop_simulation [of "stream_rel xf" "ofb_body xf" "ofb_body xf",
          OF _ stream_rel_prepared [OF assms(1-9), of ESP_AES_ENCRYPT] r]) (rule ofb_step_sim)
  then obtain v' where
    "run_loop (ofb_body xf) (prepared ESP_AES_ENCRYPT wd) ct = Returns () (v', pt)"
    by blast
  then show ?thesis
    by (simp add: ofb_valid [OF same_key_valid [OF assms(3,2)] o'] release_return_OK)
qed

lemma call_each_Cons:
  "call_each f w (seg # segs) =
     (case f w seg of
        Returns st s \<Rightarrow> if st = OK then prepend (snd s) (call_each f (fst s) segs) else Returns st s
      | Aborts s \<Rightarrow> Aborts s
      | OutOfBounds \<Rightarrow> OutOfBounds)"
  by (cases segs) (auto simp add: prepend_def split: outcome.splits)

lemma prepend_Returns:
  "prepend o1 r = Returns st (w, out) \<longleftrightarrow> (\<exists>o2. r = Returns st (w, o2) \<and> out = o1 @ o2)"
  by (cases r) (auto simp add: prepend_def)

lemma ecb_returns:
  assumes "esp_aes_crypt_ecb xf mode w input = Returns OK (w', out)" "length input = 16"
  shows "length out = 16 \<and> key (ctx w') = key (ctx w) \<and> key_bytes (ctx w') = key_bytes (ctx w)
       \<and> length (key_regs (hw w')) = length (key_regs (hw w))"
proof -
  have v: "valid_key_length (ctx w)"
    using assms(1) by (auto simp add: esp_aes_crypt_ecb_def split: if_splits)
  show ?thesis
    using assms(1)
    by (auto simp add: ecb_valid [OF v assms(2)] release_def esp_aes_release_hardware_def
          split: if_splits)
qed

lemma ecb_blocks_round_trip:
  assumes "keyed xf" "decrypt_inverts_encrypt xf"
    and "ecb_pair we wd" "\<forall>b \<in> set bs. length b = 16"
    and "call_each (esp_aes_crypt_ecb xf ESP_AES_ENCRYPT) we bs = Returns OK (we', ct)"
  shows "\<exists>wd'. call_each (esp_aes_crypt_ecb xf ESP_AES_DECRYPT) wd (blocks16 ct)
            = Returns OK (wd', concat bs)"
  using assms(3-5)
proof (induction bs arbitrary: we wd ct)
  case Nil
  then show ?case by simp
next
  case (Cons b bs)
  have lb: "length b = 16" using Cons.prems(2) by simp
  note p = Cons.prems(1) [unfolded ecb_pair_def]
  from Cons.prems(3) obtain w1 o1 ct1 where
    e: "esp_aes_crypt_ecb xf ESP_AES_ENCRYPT we b = Returns OK (w1, o1)"
    and r: "call_each (esp_aes_crypt_ecb xf ESP_AES_ENCRYPT) w1 bs = Returns OK (we', ct1)"
    and ct: "ct = o1 @ ct1"
    by (auto simp add: call_each_Cons prepend_Returns split: outcome.splits if_splits)
  from ecb_round_trip [OF assms(1,2) p [THEN conjunct1] p [THEN conjunct2, THEN conjunct1]
      p [THEN conjunct2, THEN conjunct2, THEN conjunct1]
      p [THEN conjunct2, THEN conjunct2, THEN conjunct2] lb e]
  obtain wd1 where d: "esp_aes_crypt_ecb xf ESP_AES_DECRYPT wd o1 = Returns OK (wd1, b)"
    by blast
  note fe = ecb_returns [OF e lb]
  have lo: "length o1 = 16" using fe by simp
  note fd = ecb_returns [OF d lo]
  have p1: "ecb_pair w1 wd1"
    using p fe fd by (simp add: ecb_pair_def same_key_def valid_key_length_cases)
  from Cons.IH [OF p1 _ r] Cons.prems(2) obtain wd' where
    "call_each (esp_aes_crypt_ecb xf ESP_AES_DECRYPT) wd1 (blocks16 ct1) = Returns OK (wd', concat bs)"
    by auto
  then show ?case
    using d by (simp add: ct blocks16_append [OF lo] call_each_Cons prepend_def)
qed

text \<open>
  C1. Let the accelerator be a keyed transform whose decrypt modes undo its encrypt
  modes, and let an encrypting call with a valid key return 0 with output \<open>ct\<close>. Then the
  decrypting call of the same mode on \<open>ct\<close>, in any state with the same key, the same IV
  or counter and offset 0, returns 0 with the plaintext as its output. This holds for
  CBC (any multiple of 16 bytes), for CFB128, CFB8, CTR and OFB (any length, 0 included),
  and for ECB, whose function takes one 16-byte block for each call: for one block, and
  for any multiple of 16 bytes passed block by block.
\<close>

theorem decrypt_after_encrypt:
  assumes "keyed xf" and "decrypt_inverts_encrypt xf"
    and "valid_key_length (ctx we)" and "same_key we wd"
    and "length (key_regs (hw we)) = 8" and "length (key_regs (hw wd)) = 8"
    and "iv wd = iv we" and "length (iv we) = 16"
    and "nonce_counter wd = nonce_counter we" and "length (nonce_counter we) = 16"
    and "off we = 0" and "off wd = 0"
  shows
    "(length pt = 16 \<and> esp_aes_crypt_ecb xf ESP_AES_ENCRYPT we pt = Returns OK (we', ct)
        \<longrightarrow> (\<exists>wd'. esp_aes_crypt_ecb xf ESP_AES_DECRYPT wd ct = Returns OK (wd', pt)))
     \<and> (esp_aes_crypt_cbc xf ESP_AES_ENCRYPT we pt = Returns OK (we', ct)
        \<longrightarrow> length pt mod 16 = 0
            \<and> (\<exists>wd'. esp_aes_crypt_cbc xf ESP_AES_DECRYPT wd ct = Returns OK (wd', pt)))
     \<and> (esp_aes_crypt_cfb128 xf ESP_AES_ENCRYPT we pt = Returns OK (we', ct)
        \<longrightarrow> (\<exists>wd'. esp_aes_crypt_cfb128 xf ESP_AES_DECRYPT wd ct = Returns OK (wd', pt)))
     \<and> (esp_aes_crypt_cfb8 xf ESP_AES_ENCRYPT we pt = Returns OK (we', ct)
        \<longrightarrow> (\<exists>wd'. esp_aes_crypt_cfb8 xf ESP_AES_DECRYPT wd ct = Returns OK (wd', pt)))
     \<and> (esp_aes_crypt_ctr xf we pt = Returns OK (we', ct)
        \<longrightarrow> (\<exists>wd'. esp_aes_crypt_ctr xf wd ct = Returns OK (wd', pt)))
     \<and> (esp_aes_crypt_ofb xf Valid Valid Valid Valid Valid we pt = Returns OK (we', ct)
        \<longrightarrow> (\<exists>wd'. esp_aes_crypt_ofb xf Valid Valid Valid Valid Valid wd ct = Returns OK (wd', pt)))
     \<and> (length pt mod 16 = 0
          \<and> call_each (esp_aes_crypt_ecb xf ESP_AES_ENCRYPT) we (blocks16 pt) = Returns OK (we', ct)
        \<longrightarrow> (\<exists>wd'. call_each (esp_aes_crypt_ecb xf ESP_AES_DECRYPT) wd (blocks16 ct)
                      = Returns OK (wd', pt)))"
proof -
  have o: "off wd = off we" "unat (off we) < 16" using assms(11,12) by simp_all
  have p: "ecb_pair we wd" using assms(3-6) by (simp add: ecb_pair_def)
  have b: "length pt mod 16 = 0
          \<and> call_each (esp_aes_crypt_ecb xf ESP_AES_ENCRYPT) we (blocks16 pt) = Returns OK (we', ct)
        \<longrightarrow> (\<exists>wd'. call_each (esp_aes_crypt_ecb xf ESP_AES_DECRYPT) wd (blocks16 ct)
                      = Returns OK (wd', pt))"
  proof (intro impI, elim conjE)
    assume m: "length pt mod 16 = 0"
      and e: "call_each (esp_aes_crypt_ecb xf ESP_AES_ENCRYPT) we (blocks16 pt) = Returns OK (we', ct)"
    have l: "\<forall>b \<in> set (blocks16 pt). length b = 16"
      using blocks16_lengths [OF m] by blast
    from ecb_blocks_round_trip [OF assms(1,2) p l e]
    show "\<exists>wd'. call_each (esp_aes_crypt_ecb xf ESP_AES_DECRYPT) wd (blocks16 ct)
                      = Returns OK (wd', pt)"
      by simp
  qed
  have m: "esp_aes_crypt_cbc xf ESP_AES_ENCRYPT we pt = Returns OK (we', ct) \<Longrightarrow> length pt mod 16 = 0"
    by (auto simp add: esp_aes_crypt_cbc_def split: if_splits)
  show ?thesis
    using ecb_round_trip [OF assms(1-6), of pt we' ct]
      cbc_round_trip [OF assms(1-8), of pt we' ct] m
      cfb128_round_trip [OF assms(1,3-8) o, of pt we' ct]
      cfb8_round_trip [OF assms(1,3-8), of pt we' ct]
      ctr_round_trip [OF assms(1,3-6,9,10) o(1) assms(11), of pt we' ct]
      ofb_round_trip [OF assms(1,3-8) o, of pt we' ct] b
    by blast
qed

theorem decrypt_after_encrypt_witness:
  "(\<exists>wd'. esp_aes_crypt_ecb toy_xform ESP_AES_DECRYPT other_world
      (output_of (esp_aes_crypt_ecb toy_xform ESP_AES_ENCRYPT sample_world (take 16 sample_text)))
        = Returns OK (wd', take 16 sample_text))
   \<and> (\<exists>wd'. esp_aes_crypt_cbc toy_xform ESP_AES_DECRYPT other_world
      (output_of (esp_aes_crypt_cbc toy_xform ESP_AES_ENCRYPT sample_world sample_text))
        = Returns OK (wd', sample_text))
   \<and> (\<exists>wd'. esp_aes_crypt_cfb128 toy_xform ESP_AES_DECRYPT other_world
      (output_of (esp_aes_crypt_cfb128 toy_xform ESP_AES_ENCRYPT sample_world (take 21 sample_text)))
        = Returns OK (wd', take 21 sample_text))
   \<and> (\<exists>wd'. esp_aes_crypt_cfb8 toy_xform ESP_AES_DECRYPT other_world
      (output_of (esp_aes_crypt_cfb8 toy_xform ESP_AES_ENCRYPT sample_world (take 5 sample_text)))
        = Returns OK (wd', take 5 sample_text))
   \<and> (\<exists>wd'. esp_aes_crypt_ctr toy_xform other_world
      (output_of (esp_aes_crypt_ctr toy_xform sample_world (take 21 sample_text)))
        = Returns OK (wd', take 21 sample_text))
   \<and> (\<exists>wd'. esp_aes_crypt_ofb toy_xform Valid Valid Valid Valid Valid other_world
      (output_of (esp_aes_crypt_ofb toy_xform Valid Valid Valid Valid Valid sample_world
         (take 21 sample_text)))
        = Returns OK (wd', take 21 sample_text))
   \<and> (\<exists>wd'. call_each (esp_aes_crypt_ecb toy_xform ESP_AES_DECRYPT) other_world
      (blocks16 (output_of (call_each (esp_aes_crypt_ecb toy_xform ESP_AES_ENCRYPT) sample_world
         (blocks16 sample_text))))
        = Returns OK (wd', sample_text))"
proof -
  have h: "valid_key_length (ctx sample_world)" "same_key sample_world other_world"
    "length (key_regs (hw sample_world)) = 8" "length (key_regs (hw other_world)) = 8"
    "iv other_world = iv sample_world" "length (iv sample_world) = 16"
    "nonce_counter other_world = nonce_counter sample_world"
    "length (nonce_counter sample_world) = 16"
    "off sample_world = 0" "off other_world = 0"
    by (simp_all add: sample_world_def other_world_def sample_ctx_def sample_hw_def
          sample_iv_def valid_key_length_cases same_key_def)
  note rt = decrypt_after_encrypt [OF toy_xform_keyed toy_xform_inverse h]
  have l: "length (take 16 sample_text) = 16" by (simp add: sample_text_def)
  have e1: "returned_ok (esp_aes_crypt_ecb toy_xform ESP_AES_ENCRYPT sample_world (take 16 sample_text))"
    by code_simp
  have e2: "returned_ok (esp_aes_crypt_cbc toy_xform ESP_AES_ENCRYPT sample_world sample_text)"
    by code_simp
  have e3: "returned_ok (esp_aes_crypt_cfb128 toy_xform ESP_AES_ENCRYPT sample_world (take 21 sample_text))"
    by code_simp
  have e4: "returned_ok (esp_aes_crypt_cfb8 toy_xform ESP_AES_ENCRYPT sample_world (take 5 sample_text))"
    by code_simp
  have e5: "returned_ok (esp_aes_crypt_ctr toy_xform sample_world (take 21 sample_text))"
    by code_simp
  have e6: "returned_ok (esp_aes_crypt_ofb toy_xform Valid Valid Valid Valid Valid sample_world
      (take 21 sample_text))"
    by code_simp
  note c2 = conjunct2
  have g1: "\<exists>wd'. esp_aes_crypt_ecb toy_xform ESP_AES_DECRYPT other_world
      (output_of (esp_aes_crypt_ecb toy_xform ESP_AES_ENCRYPT sample_world (take 16 sample_text)))
        = Returns OK (wd', take 16 sample_text)"
    by (rule rt [THEN conjunct1, THEN mp, OF conjI [OF l returned_ok_eq [OF e1]]])
  have g2: "\<exists>wd'. esp_aes_crypt_cbc toy_xform ESP_AES_DECRYPT other_world
      (output_of (esp_aes_crypt_cbc toy_xform ESP_AES_ENCRYPT sample_world sample_text))
        = Returns OK (wd', sample_text)"
    by (rule rt [THEN c2, THEN conjunct1, THEN mp, OF returned_ok_eq [OF e2], THEN c2])
  have g3: "\<exists>wd'. esp_aes_crypt_cfb128 toy_xform ESP_AES_DECRYPT other_world
      (output_of (esp_aes_crypt_cfb128 toy_xform ESP_AES_ENCRYPT sample_world (take 21 sample_text)))
        = Returns OK (wd', take 21 sample_text)"
    by (rule rt [THEN c2, THEN c2, THEN conjunct1, THEN mp, OF returned_ok_eq [OF e3]])
  have g4: "\<exists>wd'. esp_aes_crypt_cfb8 toy_xform ESP_AES_DECRYPT other_world
      (output_of (esp_aes_crypt_cfb8 toy_xform ESP_AES_ENCRYPT sample_world (take 5 sample_text)))
        = Returns OK (wd', take 5 sample_text)"
    by (rule rt [THEN c2, THEN c2, THEN c2, THEN conjunct1, THEN mp, OF returned_ok_eq [OF e4]])
  have g5: "\<exists>wd'. esp_aes_crypt_ctr toy_xform other_world
      (output_of (esp_aes_crypt_ctr toy_xform sample_world (take 21 sample_text)))
        = Returns OK (wd', take 21 sample_text)"
    by (rule rt [THEN c2, THEN c2, THEN c2, THEN c2, THEN conjunct1, THEN mp,
          OF returned_ok_eq [OF e5]])
  have g6: "\<exists>wd'. esp_aes_crypt_ofb toy_xform Valid Valid Valid Valid Valid other_world
      (output_of (esp_aes_crypt_ofb toy_xform Valid Valid Valid Valid Valid sample_world
         (take 21 sample_text)))
        = Returns OK (wd', take 21 sample_text)"
    by (rule rt [THEN c2, THEN c2, THEN c2, THEN c2, THEN c2, THEN conjunct1, THEN mp,
          OF returned_ok_eq [OF e6]])
  have e7: "returned_ok (call_each (esp_aes_crypt_ecb toy_xform ESP_AES_ENCRYPT) sample_world
      (blocks16 sample_text))"
    by code_simp
  have l7: "length sample_text mod 16 = 0" by (simp add: sample_text_def)
  have g7: "\<exists>wd'. call_each (esp_aes_crypt_ecb toy_xform ESP_AES_DECRYPT) other_world
      (blocks16 (output_of (call_each (esp_aes_crypt_ecb toy_xform ESP_AES_ENCRYPT) sample_world
         (blocks16 sample_text))))
        = Returns OK (wd', sample_text)"
    by (rule rt [THEN c2, THEN c2, THEN c2, THEN c2, THEN c2, THEN c2, THEN mp,
          OF conjI [OF l7 returned_ok_eq [OF e7]]])
  show ?thesis
    by (intro conjI g1 g2 g3 g4 g5 g6 g7)
qed

section \<open>CBC decryption\<close>


lemma cbc_decrypt_loop:
  assumes "loaded w" "length (iv w) = 16"
    and "\<forall>c \<in> set cs. length c = 16 \<and> hw_block xf (hw w) c \<noteq> c"
  shows "\<exists>w'. run_loop (cbc_decrypt_body xf) w cs =
            Returns () (w', concat (map2 (\<lambda>c prev. xor_bytes (hw_block xf (hw w) c) prev)
                                      cs (iv w # cs)))
           \<and> iv w' = last (iv w # cs)"
  using assms
proof (induction cs arbitrary: w)
  case Nil
  then show ?case by simp
next
  case (Cons c cs)
  have lc: "length c = 16" and ne: "hw_block xf (hw w) c \<noteq> c" using Cons.prems(3) by simp_all
  define w1 where "w1 = w\<lparr>hw := block_hw xf (hw w) c, iv := c, rets := rets w @ [Some OK]\<rparr>"
  have s: "cbc_decrypt_body xf w c = Returns () (w1, xor_bytes (hw_block xf (hw w) c) (iv w))"
    using ne by (simp add: cbc_decrypt_step [OF Cons.prems(1,2) lc] w1_def)
  have p: "loaded w1" "length (iv w1) = 16"
    "\<forall>c \<in> set cs. length c = 16 \<and> hw_block xf (hw w1) c \<noteq> c"
    using Cons.prems lc by (simp_all add: w1_def loaded_def)
  from Cons.IH [OF p] obtain w' where
    r: "run_loop (cbc_decrypt_body xf) w1 cs =
          Returns () (w', concat (map2 (\<lambda>c prev. xor_bytes (hw_block xf (hw w1) c) prev)
                                    cs (iv w1 # cs)))"
    and i: "iv w' = last (iv w1 # cs)"
    by blast
  have h: "hw_block xf (hw w1) = hw_block xf (hw w)" by (simp add: w1_def)
  show ?case
    using s r i by (simp add: h) (simp add: w1_def)
qed

text \<open>
  C3. CBC decryption of \<open>m\<close> blocks \<open>c\<^sub>1 \<dots> c\<^sub>m\<close> (any \<open>m\<close>, 0 included), none of which the
  hardware maps to itself: the call returns 0, output block \<open>i\<close> is the hardware
  decryption of \<open>c\<^sub>i\<close> XORed with the running IV, which is the caller's IV for the first
  block and the ciphertext block \<open>c\<^sub>i\<^sub>-\<^sub>1\<close> (as read, not its decryption) afterwards, and the
  IV left to the caller is the last ciphertext block.
\<close>

theorem cbc_decrypt_chains_ciphertext:
  assumes "valid_key_length (ctx w)" and "length (iv w) = 16" and "length input mod 16 = 0"
    and "\<forall>c \<in> set (blocks16 input). hw_block xf (hw (prepared ESP_AES_DECRYPT w)) c \<noteq> c"
  shows "\<exists>w'. esp_aes_crypt_cbc xf ESP_AES_DECRYPT w input =
            Returns OK (w', concat (map2
               (\<lambda>c prev. xor_bytes (hw_block xf (hw (prepared ESP_AES_DECRYPT w)) c) prev)
               (blocks16 input) (iv w # blocks16 input)))
          \<and> iv w' = last (iv w # blocks16 input)"
proof -
  have b: "\<forall>c \<in> set (blocks16 input).
      length c = 16 \<and> hw_block xf (hw (prepared ESP_AES_DECRYPT w)) c \<noteq> c"
    using blocks16_lengths [OF assms(3)] assms(4) by blast
  have p: "loaded (prepared ESP_AES_DECRYPT w)" "length (iv (prepared ESP_AES_DECRYPT w)) = 16"
    using assms(2) by simp_all
  from cbc_decrypt_loop [OF p b] obtain w1 where
    r: "run_loop (cbc_decrypt_body xf) (prepared ESP_AES_DECRYPT w) (blocks16 input) =
          Returns () (w1, concat (map2
             (\<lambda>c prev. xor_bytes (hw_block xf (hw (prepared ESP_AES_DECRYPT w)) c) prev)
             (blocks16 input) (iv (prepared ESP_AES_DECRYPT w) # blocks16 input)))"
    and i: "iv w1 = last (iv (prepared ESP_AES_DECRYPT w) # blocks16 input)"
    by blast
  have "iv (release w1) = last (iv w # blocks16 input)"
    using i by (simp add: release_def)
  then show ?thesis
    using r by (simp add: cbc_valid [OF assms(1,3)] release_return_def del: prepared_sel(6))
qed

theorem cbc_decrypt_chains_ciphertext_witness:
  "valid_key_length (ctx sample_world) \<and> length (iv sample_world) = 16
   \<and> length sample_text mod 16 = 0
   \<and> list_all (\<lambda>c. hw_block toy_xform (hw (prepared ESP_AES_DECRYPT sample_world)) c \<noteq> c)
        (blocks16 sample_text)
   \<and> (\<exists>w'. esp_aes_crypt_cbc toy_xform ESP_AES_DECRYPT sample_world sample_text =
            Returns OK (w', concat (map2
               (\<lambda>c prev. xor_bytes (hw_block toy_xform (hw (prepared ESP_AES_DECRYPT sample_world)) c) prev)
               (blocks16 sample_text) (iv sample_world # blocks16 sample_text)))
          \<and> iv w' = last (iv sample_world # blocks16 sample_text))"
proof -
  have h1: "valid_key_length (ctx sample_world)" by code_simp
  have h2: "length (iv sample_world) = 16" by code_simp
  have h3: "length sample_text mod 16 = 0" by code_simp
  have h4: "\<forall>c \<in> set (blocks16 sample_text).
         hw_block toy_xform (hw (prepared ESP_AES_DECRYPT sample_world)) c \<noteq> c"
    by code_simp
  have h5: "list_all (\<lambda>c. hw_block toy_xform (hw (prepared ESP_AES_DECRYPT sample_world)) c \<noteq> c)
        (blocks16 sample_text)"
    using h4 by (simp only: list_all_iff)
  show ?thesis
    using cbc_decrypt_chains_ciphertext [OF h1 h2 h3 h4] h1 h2 h3 h5 by blast
qed

section \<open>Splitting a call in two\<close>


lemma forget_simps [simp]:
  "forget (Returns u s) = Returns u (strip (fst s), snd s)"
  "forget (Aborts s) = Aborts (strip (fst s), snd s)"
  "forget OutOfBounds = OutOfBounds"
  by (simp_all add: forget_def)

lemma forget_eq_Returns [simp]:
  "forget r = Returns u (w, bs) \<longleftrightarrow> (\<exists>w'. r = Returns u (w', bs) \<and> strip w' = w)"
  "Returns u (w, bs) = forget r \<longleftrightarrow> (\<exists>w'. r = Returns u (w', bs) \<and> strip w' = w)"
  by (cases r; auto simp add: forget_def)+

lemma forget_eq_Aborts [simp]:
  "forget r = Aborts (w, bs) \<longleftrightarrow> (\<exists>w'. r = Aborts (w', bs) \<and> strip w' = w)"
  "Aborts (w, bs) = forget r \<longleftrightarrow> (\<exists>w'. r = Aborts (w', bs) \<and> strip w' = w)"
  by (cases r; auto simp add: forget_def)+

lemma forget_eq_OutOfBounds [simp]:
  "forget r = OutOfBounds \<longleftrightarrow> r = OutOfBounds"
  "OutOfBounds = forget r \<longleftrightarrow> r = OutOfBounds"
  by (cases r; auto simp add: forget_def)+

lemma esp_aes_block_frame:
  "esp_aes_block xf c h x = Returns r (h', out) \<Longrightarrow>
     key_regs h' = key_regs h \<and> mode_reg h' = mode_reg h
     \<and> in_critical h' = in_critical h \<and> aes_enabled h' = aes_enabled h"
  by (auto simp add: esp_aes_block_def Let_def read_text_buffer_def start_and_wait_def
        write_text_reg_def split: if_splits prod.splits)

lemma esp_aes_block_strip:
  "map_outcome id (map_prod strip_hw id) (esp_aes_block xf c (strip_hw h) x)
     = map_outcome id (map_prod strip_hw id) (esp_aes_block xf c h x)"
  by (simp add: esp_aes_block_def Let_def read_text_buffer_def start_and_wait_def
        write_text_reg_def strip_hw_def split: prod.splits)


lemmas raw_block = esp_aes_block_def Let_def read_text_buffer_def start_and_wait_def
  write_text_reg_def strip_def strip_hw_def

lemma cfb128_encrypt_strip:
  "forget (cfb128_encrypt_body xf (strip w) x) = forget (cfb128_encrypt_body xf w x)"
  by (simp add: cfb128_encrypt_body_def block_iv_at_0_def block_iv_def raw_block split: prod.splits)

lemma cfb128_decrypt_strip:
  "forget (cfb128_decrypt_body xf (strip w) x) = forget (cfb128_decrypt_body xf w x)"
  by (simp add: cfb128_decrypt_body_def block_iv_at_0_def block_iv_def raw_block split: prod.splits)

lemma ofb_strip:
  "forget (ofb_body xf (strip w) x) = forget (ofb_body xf w x)"
  by (simp add: ofb_body_def block_iv_at_0_def block_iv_def raw_block split: prod.splits)

lemma cfb8_strip:
  "forget (cfb8_body xf mode (strip w) x) = forget (cfb8_body xf mode w x)"
  by (simp add: cfb8_body_def block_iv_def raw_block split: prod.splits)

lemma ctr_strip:
  "forget (ctr_body xf (strip w) x) = forget (ctr_body xf w x)"
  by (simp add: ctr_body_def ctr_block_at_0_def raw_block split: prod.splits)

lemma strip_strip [simp]: "strip (strip w) = strip w"
  by (simp add: strip_def strip_hw_def)

lemma forget_Returns:
  "forget r = forget r' \<Longrightarrow> r = Returns u (w1, bs) \<Longrightarrow>
     \<exists>w1'. r' = Returns u (w1', bs) \<and> strip w1' = strip w1"
  by auto

lemma run_loop_strip:
  assumes "\<And>w x. forget (body (strip w) x) = forget (body w x)"
  shows "forget (run_loop body (strip w) xs) = forget (run_loop body w xs)"
proof (induction xs arbitrary: w)
  case Nil
  show ?case by simp
next
  case (Cons x xs)
  note a = assms [of w x]
  show ?case
  proof (cases "body w x")
    case (Returns u s)
    obtain w1 bs where s: "s = (w1, bs)" by (cases s)
    from forget_Returns [OF a [symmetric] Returns [unfolded s]] obtain w1' where
      b': "body (strip w) x = Returns u (w1', bs)" and e: "strip w1' = strip w1" by blast
    have "forget (run_loop body w1' xs) = forget (run_loop body w1 xs)"
      using Cons.IH [of w1'] Cons.IH [of w1] e by simp
    then show ?thesis
      using Returns s b'
      by (cases "run_loop body w1' xs"; cases "run_loop body w1 xs") auto
  next
    case (Aborts s)
    then show ?thesis using a by (cases "body (strip w) x") auto
  next
    case OutOfBounds
    then show ?thesis using a by (cases "body (strip w) x") auto
  qed
qed

lemma key_regs_keyed_hw_nth:
  "i < length (key_regs h) \<Longrightarrow>
   key_regs (keyed_hw c m h) ! i =
     (if i < unat (key_bytes c) div 4 then load_word (key c) i else key_regs h ! i)"
  by (simp add: keyed_hw_def write_mode_reg_def fold_write_key_nth)

lemma programmed_prepared: "programmed (ctx (prepared m w)) m (prepared m w)"
  by (simp add: programmed_def key_regs_keyed_hw_nth esp_aes_acquire_hardware_def)

lemma strip_prepared_release:
  assumes "programmed c m w"
  shows "strip (prepared m (release w)) = strip w"
proof -
  let ?h = "keyed_hw (ctx w) m (esp_aes_acquire_hardware (esp_aes_release_hardware (hw w)))"
  have k: "key_regs ?h = key_regs (hw w)"
    using assms
    by (intro nth_equalityI)
       (simp_all add: key_regs_keyed_hw_nth programmed_def esp_aes_acquire_hardware_def
          esp_aes_release_hardware_def)
  have "strip_hw ?h = strip_hw (hw w)"
    using assms k
    by (intro hw_state.equality)
       (simp_all add: strip_hw_def programmed_def esp_aes_acquire_hardware_def
          esp_aes_release_hardware_def keyed_hw_def write_mode_reg_def)
  moreover have "(ctx w)\<lparr>key_in_hardware := key_bytes (ctx w)\<rparr> = ctx w"
    using assms by (auto simp add: programmed_def)
  ultimately show ?thesis
    by (simp add: strip_def prepared_def release_def)
qed

lemma block_iv_frame:
  "block_iv xf w = Returns u w1 \<Longrightarrow> programmed c m w \<Longrightarrow> programmed c m w1"
  by (auto simp add: block_iv_def programmed_def split: outcome.splits prod.splits
        dest: esp_aes_block_frame)

lemma block_iv_at_0_frame:
  "block_iv_at_0 xf w = Returns u w1 \<Longrightarrow> programmed c m w \<Longrightarrow> programmed c m w1"
  by (auto simp add: block_iv_at_0_def split: if_splits dest: block_iv_frame)
     (simp add: programmed_def)

lemma cfb128_encrypt_frame:
  "cfb128_encrypt_body xf w x = Returns u (w1, bs) \<Longrightarrow> programmed c m w \<Longrightarrow> programmed c m w1"
  by (auto simp add: cfb128_encrypt_body_def Let_def split: outcome.splits if_splits
        dest!: block_iv_at_0_frame [where m = m and c = c])
     (simp add: programmed_def)

lemma cfb128_decrypt_frame:
  "cfb128_decrypt_body xf w x = Returns u (w1, bs) \<Longrightarrow> programmed c m w \<Longrightarrow> programmed c m w1"
  by (auto simp add: cfb128_decrypt_body_def Let_def split: outcome.splits if_splits
        dest!: block_iv_at_0_frame [where m = m and c = c])
     (simp add: programmed_def)

lemma ofb_frame:
  "ofb_body xf w x = Returns u (w1, bs) \<Longrightarrow> programmed c m w \<Longrightarrow> programmed c m w1"
  by (auto simp add: ofb_body_def Let_def split: outcome.splits if_splits
        dest!: block_iv_at_0_frame [where m = m and c = c])
     (simp add: programmed_def)

lemma cfb8_frame:
  "cfb8_body xf mode w x = Returns u (w1, bs) \<Longrightarrow> programmed c m w \<Longrightarrow> programmed c m w1"
  by (auto simp add: cfb8_body_def Let_def split: outcome.splits if_splits
        dest!: block_iv_frame [where m = m and c = c])
     (simp_all add: programmed_def)

lemma ctr_frame:
  "ctr_body xf w x = Returns u (w1, bs) \<Longrightarrow> programmed c m w \<Longrightarrow> programmed c m w1"
  by (auto simp add: ctr_body_def ctr_block_at_0_def Let_def programmed_def
        split: outcome.splits if_splits prod.splits dest: esp_aes_block_frame)

lemma run_loop_invariant:
  assumes "\<And>w x w1 bs. body w x = Returns () (w1, bs) \<Longrightarrow> P w \<Longrightarrow> P w1"
    and "run_loop body w xs = Returns () (w', out)" and "P w"
  shows "P w'"
  using assms(2,3)
proof (induction xs arbitrary: w out)
  case Nil
  then show ?case by simp
next
  case (Cons x xs)
  from Cons.prems(1) obtain w1 bs cs where
    b: "body w x = Returns () (w1, bs)" and r: "run_loop body w1 xs = Returns () (w', cs)"
    unfolding run_loop_Returns_Cons by blast
  show ?case by (rule Cons.IH [OF r assms(1) [OF b Cons.prems(2)]])
qed

lemma strip_release:
  assumes "strip a = strip b" shows "strip (release a) = strip (release b)"
proof -
  have "\<And>w. strip (release w)
      = (strip w)\<lparr>hw := (hw (strip w))\<lparr>aes_enabled := False, in_critical := False\<rparr>\<rparr>"
    by (simp add: strip_def strip_hw_def release_def esp_aes_release_hardware_def)
  then show ?thesis using assms by simp
qed

lemma continue_loop:
  assumes strip: "\<And>w x. forget (body (strip w) x) = forget (body w x)"
    and frame: "\<And>w x w1 bs. body w x = Returns () (w1, bs) \<Longrightarrow>
                  programmed (ctx (prepared m w0)) m w \<Longrightarrow> programmed (ctx (prepared m w0)) m w1"
    and first: "release_return (run_loop body (prepared m w0) xs) = Returns OK (w1, o1)"
  shows "continues o1 (release_return (run_loop body (prepared m w1) ys))
           (release_return (run_loop body (prepared m w0) (xs @ ys)))
         \<and> key_bytes (ctx w1) = key_bytes (ctx w0)"
proof (rule conjI)
  from first obtain w1' where
    r: "run_loop body (prepared m w0) xs = Returns () (w1', o1)" and w1: "w1 = release w1'"
    by (auto simp add: release_return_OK)
  have p: "programmed (ctx (prepared m w0)) m w1'"
    by (rule run_loop_invariant [of body "programmed (ctx (prepared m w0)) m", OF frame r programmed_prepared])
  have s: "strip (prepared m w1) = strip w1'"
    unfolding w1 by (rule strip_prepared_release [OF p])
  have f: "forget (run_loop body (prepared m w1) ys) = forget (run_loop body w1' ys)"
    using run_loop_strip [of body "prepared m w1" ys, OF strip]
      run_loop_strip [of body w1' ys, OF strip] s by simp
  show "continues o1 (release_return (run_loop body (prepared m w1) ys))
           (release_return (run_loop body (prepared m w0) (xs @ ys)))"
  proof (cases "run_loop body w1' ys")
    case (Returns u s2)
    obtain w2 o2 where s2: "s2 = (w2, o2)" by (cases s2)
    from f Returns s2 obtain v2 where
      v: "run_loop body (prepared m w1) ys = Returns u (v2, o2)" and e: "strip v2 = strip w2"
      by auto
    show ?thesis
      using v e Returns s2 r strip_release [OF e]
      by (simp add: run_loop_append release_return_def continues_def equal_but_log_def)
  next
    case (Aborts s2)
    obtain w2 o2 where s2: "s2 = (w2, o2)" by (cases s2)
    from f Aborts s2 obtain v2 where
      v: "run_loop body (prepared m w1) ys = Aborts (v2, o2)" and e: "strip v2 = strip w2"
      by auto
    show ?thesis
      using v e Aborts s2 r
      by (simp add: run_loop_append release_return_def continues_def equal_but_log_def)
  next
    case OutOfBounds
    with f have "run_loop body (prepared m w1) ys = OutOfBounds" by simp
    then show ?thesis
      using OutOfBounds r
      by (simp add: run_loop_append release_return_def continues_def)
  qed
next
  from first obtain w1' where
    r: "run_loop body (prepared m w0) xs = Returns () (w1', o1)" and w1: "w1 = release w1'"
    by (auto simp add: release_return_OK)
  have p: "programmed (ctx (prepared m w0)) m w1'"
    by (rule run_loop_invariant [of body "programmed (ctx (prepared m w0)) m", OF frame r programmed_prepared])
  show "key_bytes (ctx w1) = key_bytes (ctx w0)"
    using p by (simp add: w1 release_def programmed_def)
qed

lemma cfb128_continues:
  assumes "esp_aes_crypt_cfb128 xf mode w xs = Returns OK (w1, o1)"
  shows "continues o1 (esp_aes_crypt_cfb128 xf mode w1 ys) (esp_aes_crypt_cfb128 xf mode w (xs @ ys))"
proof -
  have v: "valid_key_length (ctx w)"
    using assms by (auto simp add: esp_aes_crypt_cfb128_def split: if_splits)
  show ?thesis
  proof (cases "mode = ESP_AES_DECRYPT")
    case True
    have first: "release_return (run_loop (cfb128_decrypt_body xf) (prepared ESP_AES_ENCRYPT w) xs)
        = Returns OK (w1, o1)"
      using assms True by (simp add: cfb128_valid [OF v])
    note c = continue_loop [of "cfb128_decrypt_body xf" ESP_AES_ENCRYPT w xs w1 o1 ys,
        OF cfb128_decrypt_strip cfb128_decrypt_frame first]
    have "valid_key_length (ctx w1)" using v c [THEN conjunct2] by (simp add: valid_key_length_cases)
    then show ?thesis using c [THEN conjunct1] True by (simp add: cfb128_valid v)
  next
    case False
    have first: "release_return (run_loop (cfb128_encrypt_body xf) (prepared ESP_AES_ENCRYPT w) xs)
        = Returns OK (w1, o1)"
      using assms False by (simp add: cfb128_valid [OF v])
    note c = continue_loop [of "cfb128_encrypt_body xf" ESP_AES_ENCRYPT w xs w1 o1 ys,
        OF cfb128_encrypt_strip cfb128_encrypt_frame first]
    have "valid_key_length (ctx w1)" using v c [THEN conjunct2] by (simp add: valid_key_length_cases)
    then show ?thesis using c [THEN conjunct1] False by (simp add: cfb128_valid v)
  qed
qed

lemma cfb8_continues:
  assumes "esp_aes_crypt_cfb8 xf mode w xs = Returns OK (w1, o1)"
  shows "continues o1 (esp_aes_crypt_cfb8 xf mode w1 ys) (esp_aes_crypt_cfb8 xf mode w (xs @ ys))"
proof -
  have v: "valid_key_length (ctx w)"
    using assms by (auto simp add: esp_aes_crypt_cfb8_def split: if_splits)
  have first: "release_return (run_loop (cfb8_body xf mode) (prepared ESP_AES_ENCRYPT w) xs)
      = Returns OK (w1, o1)"
    using assms by (simp add: cfb8_valid [OF v])
  note c = continue_loop [of "cfb8_body xf mode" ESP_AES_ENCRYPT w xs w1 o1 ys,
      OF cfb8_strip cfb8_frame first]
  have "valid_key_length (ctx w1)" using v c [THEN conjunct2] by (simp add: valid_key_length_cases)
  then show ?thesis using c [THEN conjunct1] by (simp add: cfb8_valid v)
qed

lemma ctr_continues:
  assumes "esp_aes_crypt_ctr xf w xs = Returns OK (w1, o1)"
  shows "continues o1 (esp_aes_crypt_ctr xf w1 ys) (esp_aes_crypt_ctr xf w (xs @ ys))"
proof -
  have v: "valid_key_length (ctx w)"
    using assms by (auto simp add: esp_aes_crypt_ctr_def split: if_splits)
  have first: "release_return (run_loop (ctr_body xf) (prepared ESP_AES_ENCRYPT w) xs)
      = Returns OK (w1, o1)"
    using assms by (simp add: ctr_valid [OF v])
  note c = continue_loop [of "ctr_body xf" ESP_AES_ENCRYPT w xs w1 o1 ys,
      OF ctr_strip ctr_frame first]
  have "valid_key_length (ctx w1)" using v c [THEN conjunct2] by (simp add: valid_key_length_cases)
  then show ?thesis using c [THEN conjunct1] by (simp add: ctr_valid v)
qed

lemma ofb_off_le:
  "ofb_body xf w x = Returns u (w1, bs) \<Longrightarrow> off w1 \<le> 15"
  by (auto simp add: ofb_body_def Let_def word_and_le1 split: outcome.splits if_splits)

lemma ofb_continues:
  assumes "esp_aes_crypt_ofb xf p1 p2 p3 p4 p5 w xs = Returns OK (w1, o1)"
  shows "continues o1 (esp_aes_crypt_ofb xf p1 p2 p3 p4 p5 w1 ys)
           (esp_aes_crypt_ofb xf p1 p2 p3 p4 p5 w (xs @ ys))"
proof -
  have p: "p1 = Valid" "p2 = Valid" "p3 = Valid" "p4 = Valid" "p5 = Valid"
    and o: "off w \<le> 15" and v: "valid_key_length (ctx w)"
    using assms
    by (auto simp add: esp_aes_crypt_ofb_def not_less split: if_splits intro: ptr.exhaust)
  have first: "release_return (run_loop (ofb_body xf) (prepared ESP_AES_ENCRYPT w) xs)
      = Returns OK (w1, o1)"
    using assms by (simp add: p ofb_valid [OF v o])
  note c = continue_loop [of "ofb_body xf" ESP_AES_ENCRYPT w xs w1 o1 ys,
      OF ofb_strip ofb_frame first]
  from first obtain w1' where
    r: "run_loop (ofb_body xf) (prepared ESP_AES_ENCRYPT w) xs = Returns () (w1', o1)"
    and w1: "w1 = release w1'"
    by (auto simp add: release_return_OK)
  have "off w1' \<le> 15"
    using run_loop_invariant [of "ofb_body xf" "\<lambda>w. off w \<le> 15", OF _ r] ofb_off_le o
    by auto
  then have o1: "off w1 \<le> 15" by (simp add: w1 release_def)
  have "valid_key_length (ctx w1)" using v c [THEN conjunct2] by (simp add: valid_key_length_cases)
  then show ?thesis using c [THEN conjunct1] by (simp add: p ofb_valid v o o1)
qed

lemma continues_refl: "continues [] r r"
  by (cases r) (auto simp add: continues_def equal_but_log_def)

lemma continues_trans:
  assumes "continues [] a b" "continues o1 b c"
  shows "continues [] (prepend o1 a) c"
  using assms
  by (cases a; cases b) (auto simp add: continues_def prepend_def equal_but_log_def)

lemma release_return_append:
  "release_return (run_loop body w xs) = Aborts s \<Longrightarrow>
     release_return (run_loop body w (xs @ ys)) = Aborts s"
  "release_return (run_loop body w xs) = OutOfBounds \<Longrightarrow>
     release_return (run_loop body w (xs @ ys)) = OutOfBounds"
  by (auto simp add: release_return_def run_loop_append split: outcome.splits)

lemma call_each_whole:
  assumes two: "\<And>w xs ys w1 o1. f w xs = Returns OK (w1, o1) \<Longrightarrow> continues o1 (f w1 ys) (f w (xs @ ys))"
    and err: "\<And>w xs ys st s. f w xs = Returns st s \<Longrightarrow> st \<noteq> OK \<Longrightarrow> f w (xs @ ys) = Returns st s"
    and ab: "\<And>w xs ys s. f w xs = Aborts s \<Longrightarrow> f w (xs @ ys) = Aborts s"
    and oob: "\<And>w xs ys. f w xs = OutOfBounds \<Longrightarrow> f w (xs @ ys) = OutOfBounds"
    and "segs \<noteq> []"
  shows "continues [] (call_each f w segs) (f w (concat segs))"
  using assms(5)
proof (induction segs arbitrary: w rule: list_nonempty_induct)
  case (single seg)
  show ?case by (simp add: continues_refl)
next
  case (cons seg segs)
  obtain s2 rest where sg: "segs = s2 # rest" using cons.hyps by (cases segs) auto
  show ?case
  proof (cases "f w seg")
    case (Returns st s)
    obtain w1 o1 where s: "s = (w1, o1)" by (cases s)
    show ?thesis
    proof (cases "st = OK")
      case True
      have "continues [] (prepend o1 (call_each f w1 segs)) (f w (seg @ concat segs))"
        by (rule continues_trans [OF cons.IH two]) (simp add: Returns s True)
      then show ?thesis using Returns s True by (simp add: sg)
    next
      case False
      then show ?thesis
        using Returns err [OF Returns False, of "concat segs"] by (simp add: sg continues_refl)
    qed
  next
    case (Aborts s)
    then show ?thesis using ab [OF Aborts, of "concat segs"] by (simp add: sg continues_refl)
  next
    case OutOfBounds
    then show ?thesis using oob [OF OutOfBounds, of "concat segs"] by (simp add: sg continues_refl)
  qed
qed

lemma rest_generic:
  assumes eq: "\<And>xs. f xs = (if c then r0 else release_return (run_loop body w' xs))"
  shows "f xs = Returns st s \<Longrightarrow> st \<noteq> OK \<Longrightarrow> f (xs @ ys) = Returns st s"
    and "f xs = Aborts s \<Longrightarrow> f (xs @ ys) = Aborts s"
    and "f xs = OutOfBounds \<Longrightarrow> f (xs @ ys) = OutOfBounds"
proof -
  show "f xs = Returns st s \<Longrightarrow> st \<noteq> OK \<Longrightarrow> f (xs @ ys) = Returns st s"
  proof (cases c)
    case True
    then show "f xs = Returns st s \<Longrightarrow> f (xs @ ys) = Returns st s" by (simp add: eq)
  next
    case False
    assume "f xs = Returns st s" "st \<noteq> OK"
    then show "f (xs @ ys) = Returns st s"
      using False release_return_status [of "run_loop body w' xs" st s] by (simp add: eq)
  qed
  show "f xs = Aborts s \<Longrightarrow> f (xs @ ys) = Aborts s"
    by (cases c) (simp_all add: eq release_return_append)
  show "f xs = OutOfBounds \<Longrightarrow> f (xs @ ys) = OutOfBounds"
    by (cases c) (simp_all add: eq release_return_append)
qed

lemma cfb128_unfold:
  "esp_aes_crypt_cfb128 xf mode w xs =
     (if \<not> valid_key_length (ctx w) then Returns MBEDTLS_ERR_AES_INVALID_KEY_LENGTH (w, [])
      else release_return (run_loop (if mode = ESP_AES_DECRYPT then cfb128_decrypt_body xf
                                     else cfb128_encrypt_body xf) (prepared ESP_AES_ENCRYPT w) xs))"
  by (simp add: esp_aes_crypt_cfb128_def setkey_hardware_prepared)

lemma cfb8_unfold:
  "esp_aes_crypt_cfb8 xf mode w xs =
     (if \<not> valid_key_length (ctx w) then Returns MBEDTLS_ERR_AES_INVALID_KEY_LENGTH (w, [])
      else release_return (run_loop (cfb8_body xf mode) (prepared ESP_AES_ENCRYPT w) xs))"
  by (simp add: esp_aes_crypt_cfb8_def setkey_hardware_prepared)

lemma ctr_unfold:
  "esp_aes_crypt_ctr xf w xs =
     (if \<not> valid_key_length (ctx w) then Returns MBEDTLS_ERR_AES_INVALID_KEY_LENGTH (w, [])
      else release_return (run_loop (ctr_body xf) (prepared ESP_AES_ENCRYPT w) xs))"
  by (simp add: esp_aes_crypt_ctr_def setkey_hardware_prepared)

lemma ofb_unfold:
  "esp_aes_crypt_ofb xf p1 p2 p3 p4 p5 w xs =
     (if (p1 = NULL \<or> p2 = NULL \<or> p3 = NULL \<or> p4 = NULL \<or> p5 = NULL \<or> off w > 15)
          \<or> \<not> valid_key_length (ctx w)
      then (if p1 = NULL \<or> p2 = NULL \<or> p3 = NULL \<or> p4 = NULL \<or> p5 = NULL \<or> off w > 15
            then Returns MBEDTLS_ERR_AES_BAD_INPUT_DATA (w, [])
            else Returns MBEDTLS_ERR_AES_INVALID_KEY_LENGTH (w, []))
      else release_return (run_loop (ofb_body xf) (prepared ESP_AES_ENCRYPT w) xs))"
  by (simp add: esp_aes_crypt_ofb_def setkey_hardware_prepared)

lemmas cfb128_rest = rest_generic [of "esp_aes_crypt_cfb128 xf mode w", OF cfb128_unfold] for xf mode w
lemmas cfb8_rest = rest_generic [of "esp_aes_crypt_cfb8 xf mode w", OF cfb8_unfold] for xf mode w
lemmas ctr_rest = rest_generic [of "esp_aes_crypt_ctr xf w", OF ctr_unfold] for xf w
lemmas ofb_rest = rest_generic [of "esp_aes_crypt_ofb xf p1 p2 p3 p4 p5 w", OF ofb_unfold]
  for xf p1 p2 p3 p4 p5 w

text \<open>
  C5. For CFB128, CFB8, CTR and OFB, in either direction, with any key and any initial
  chaining state: passing the input in one or more consecutive segments, each call
  starting in the state the previous call returned, does what one call over the
  concatenated input does. If the calls return 0, the single call returns 0 with the same
  output bytes and the same final state (IV or counter, stream block, offset, context,
  registers), but for the access log of the peripheral; if a call aborts or fails, the
  single call ends the same way.
\<close>

theorem segments_equal_single_call:
  assumes "segs \<noteq> []"
  shows "continues [] (call_each (esp_aes_crypt_cfb128 xf mode) w segs)
           (esp_aes_crypt_cfb128 xf mode w (concat segs))
       \<and> continues [] (call_each (esp_aes_crypt_cfb8 xf mode) w segs)
           (esp_aes_crypt_cfb8 xf mode w (concat segs))
       \<and> continues [] (call_each (esp_aes_crypt_ctr xf) w segs)
           (esp_aes_crypt_ctr xf w (concat segs))
       \<and> continues [] (call_each (esp_aes_crypt_ofb xf p1 p2 p3 p4 p5) w segs)
           (esp_aes_crypt_ofb xf p1 p2 p3 p4 p5 w (concat segs))"
proof (intro conjI)
  show "continues [] (call_each (esp_aes_crypt_cfb128 xf mode) w segs)
           (esp_aes_crypt_cfb128 xf mode w (concat segs))"
    by (rule call_each_whole [OF cfb128_continues cfb128_rest assms])
  show "continues [] (call_each (esp_aes_crypt_cfb8 xf mode) w segs)
           (esp_aes_crypt_cfb8 xf mode w (concat segs))"
    by (rule call_each_whole [OF cfb8_continues cfb8_rest assms])
  show "continues [] (call_each (esp_aes_crypt_ctr xf) w segs)
           (esp_aes_crypt_ctr xf w (concat segs))"
    by (rule call_each_whole [OF ctr_continues ctr_rest assms])
  show "continues [] (call_each (esp_aes_crypt_ofb xf p1 p2 p3 p4 p5) w segs)
           (esp_aes_crypt_ofb xf p1 p2 p3 p4 p5 w (concat segs))"
    by (rule call_each_whole [OF ofb_continues ofb_rest assms])
qed


theorem segments_equal_single_call_witness:
  "sample_segments \<noteq> []
   \<and> (continues [] (call_each (esp_aes_crypt_cfb128 toy_xform ESP_AES_DECRYPT) sample_world sample_segments)
           (esp_aes_crypt_cfb128 toy_xform ESP_AES_DECRYPT sample_world (concat sample_segments))
       \<and> continues [] (call_each (esp_aes_crypt_cfb8 toy_xform ESP_AES_DECRYPT) sample_world sample_segments)
           (esp_aes_crypt_cfb8 toy_xform ESP_AES_DECRYPT sample_world (concat sample_segments))
       \<and> continues [] (call_each (esp_aes_crypt_ctr toy_xform) sample_world sample_segments)
           (esp_aes_crypt_ctr toy_xform sample_world (concat sample_segments))
       \<and> continues [] (call_each (esp_aes_crypt_ofb toy_xform Valid Valid Valid Valid Valid)
                          sample_world sample_segments)
           (esp_aes_crypt_ofb toy_xform Valid Valid Valid Valid Valid sample_world
              (concat sample_segments)))
   \<and> returned_ok (call_each (esp_aes_crypt_cfb128 toy_xform ESP_AES_DECRYPT) sample_world sample_segments)
   \<and> output_of (call_each (esp_aes_crypt_cfb128 toy_xform ESP_AES_DECRYPT) sample_world sample_segments)
       = output_of (esp_aes_crypt_cfb128 toy_xform ESP_AES_DECRYPT sample_world (concat sample_segments))"
proof -
  have n: "sample_segments \<noteq> []" by (simp add: sample_segments_def)
  have r: "returned_ok (call_each (esp_aes_crypt_cfb128 toy_xform ESP_AES_DECRYPT) sample_world
      sample_segments)"
    by code_simp
  have e: "output_of (call_each (esp_aes_crypt_cfb128 toy_xform ESP_AES_DECRYPT) sample_world
        sample_segments)
       = output_of (esp_aes_crypt_cfb128 toy_xform ESP_AES_DECRYPT sample_world (concat sample_segments))"
    by code_simp
  show ?thesis
    using segments_equal_single_call [OF n, of toy_xform ESP_AES_DECRYPT sample_world
        Valid Valid Valid Valid Valid] n r e
    by blast
qed

section \<open>Offsets and fresh keystream blocks\<close>


lemma unat_next_off:
  assumes "unat (n :: size_t) < 16"
  shows "unat ((n + 1) AND 0x0F) = (unat n + 1) mod 16"
proof -
  have "(n + 1) AND 0x0F = take_bit 4 (n + 1)"
    by (simp add: take_bit_eq_mask mask_eq_exp_minus_1)
  also have "unat \<dots> = unat (n + 1) mod 2 ^ 4"
    by (simp only: unsigned_take_bit_eq) (simp add: take_bit_eq_mod)
  also have "unat (n + 1) = unat n + 1"
    using assms by (simp add: unat_word_ariths)
  finally show ?thesis by simp
qed

lemma block_log_Suc:
  "block_log n (Suc len) = (if n mod 16 = 0 then Some OK else None) # block_log ((n + 1) mod 16) len"
proof -
  have "[0 ..< Suc len] = 0 # map Suc [0 ..< len]"
    by (metis map_Suc_upt upt_conv_Cons zero_less_Suc)
  then show ?thesis
    by (simp add: block_log_def comp_def mod_simps del: upt_Suc)
qed

lemma run_loop_offsets:
  assumes step: "\<And>w x w1 bs. I w \<Longrightarrow> body w x = Returns () (w1, bs) \<Longrightarrow>
             I w1 \<and> rets w1 = rets w @ [if off w = 0 then Some OK else None]
             \<and> off w1 = (off w + 1) AND 0x0F \<and> length bs = 1"
    and bound: "\<And>w. I w \<Longrightarrow> unat (off w) < 16"
    and "I w" and "run_loop body w xs = Returns () (w', out)"
  shows "I w' \<and> rets w' = rets w @ block_log (unat (off w)) (length xs)
         \<and> unat (off w') = (unat (off w) + length xs) mod 16 \<and> length out = length xs"
  using assms(3,4)
proof (induction xs arbitrary: w out)
  case Nil
  then show ?case using bound [of w] by (simp add: block_log_def)
next
  case (Cons x xs)
  from Cons.prems(2) obtain w1 bs cs where
    b: "body w x = Returns () (w1, bs)" and r: "run_loop body w1 xs = Returns () (w', cs)"
    and o: "out = bs @ cs"
    unfolding run_loop_Returns_Cons by blast
  note s = step [OF Cons.prems(1) b]
  note ih = Cons.IH [OF s [THEN conjunct1] r]
  have n: "unat (off w) < 16" using Cons.prems(1) by (rule bound)
  have z: "(off w = 0) = (unat (off w) mod 16 = 0)" using n by (simp add: unat_eq_0)
  have u: "unat ((off w + 1) AND 0x0F) = (unat (off w) + 1) mod 16"
    using n by (rule unat_next_off)
  show ?case
    using ih s by (simp add: o u block_log_Suc z mod_simps)
qed

lemma cfb128_encrypt_offsets:
  "iv_inv w \<Longrightarrow> cfb128_encrypt_body xf w x = Returns () (w1, bs) \<Longrightarrow>
     iv_inv w1 \<and> rets w1 = rets w @ [if off w = 0 then Some OK else None]
     \<and> off w1 = (off w + 1) AND 0x0F \<and> length bs = 1"
  by (auto simp add: iv_inv_def cfb128_encrypt_step Let_def loaded_def split: if_splits)

lemma cfb128_decrypt_offsets:
  "iv_inv w \<Longrightarrow> cfb128_decrypt_body xf w x = Returns () (w1, bs) \<Longrightarrow>
     iv_inv w1 \<and> rets w1 = rets w @ [if off w = 0 then Some OK else None]
     \<and> off w1 = (off w + 1) AND 0x0F \<and> length bs = 1"
  by (auto simp add: iv_inv_def cfb128_decrypt_step Let_def loaded_def split: if_splits)

lemma ofb_offsets:
  "iv_inv w \<Longrightarrow> ofb_body xf w x = Returns () (w1, bs) \<Longrightarrow>
     iv_inv w1 \<and> rets w1 = rets w @ [if off w = 0 then Some OK else None]
     \<and> off w1 = (off w + 1) AND 0x0F \<and> length bs = 1"
  by (auto simp add: iv_inv_def ofb_step Let_def loaded_def split: if_splits)

lemma ctr_offsets:
  "ctr_inv w \<Longrightarrow> ctr_body xf w x = Returns () (w1, bs) \<Longrightarrow>
     ctr_inv w1 \<and> rets w1 = rets w @ [if off w = 0 then Some OK else None]
     \<and> off w1 = (off w + 1) AND 0x0F \<and> length bs = 1"
  by (auto simp add: ctr_inv_def ctr_step Let_def loaded_def split: if_splits)


lemma iv_inv_prepared:
  "length (iv w) = 16 \<Longrightarrow> unat (off w) < 16 \<Longrightarrow> iv_inv (prepared m w)"
  by (simp add: iv_inv_def)

lemma ctr_inv_prepared:
  "length (nonce_counter w) = 16 \<Longrightarrow> unat (off w) < 16 \<Longrightarrow> ctr_inv (prepared m w)"
  by (simp add: ctr_inv_def)

lemma release_sel [simp]:
  "off (release w) = off w" "rets (release w) = rets w" "iv (release w) = iv w"
  "nonce_counter (release w) = nonce_counter w" "stream_block (release w) = stream_block w"
  "ctx (release w) = ctx w"
  by (simp_all add: release_def)

lemma cfb128_offsets:
  assumes "length (iv w) = 16" "unat (off w) < 16"
    and "esp_aes_crypt_cfb128 xf mode w input = Returns OK (w', out)"
  shows "unat (off w') = (unat (off w) + length input) mod 16
       \<and> rets w' = rets w @ block_log (unat (off w)) (length input)
       \<and> length out = length input"
proof -
  have v: "valid_key_length (ctx w)"
    using assms(3) by (auto simp add: esp_aes_crypt_cfb128_def split: if_splits)
  let ?body = "if mode = ESP_AES_DECRYPT then cfb128_decrypt_body xf else cfb128_encrypt_body xf"
  from assms(3) obtain w1 where
    r: "run_loop ?body (prepared ESP_AES_ENCRYPT w) input = Returns () (w1, out)"
    and w': "w' = release w1"
    by (auto simp add: cfb128_unfold v release_return_OK)
  have "iv_inv w1 \<and> rets w1 = rets (prepared ESP_AES_ENCRYPT w)
            @ block_log (unat (off (prepared ESP_AES_ENCRYPT w))) (length input)
         \<and> unat (off w1) = (unat (off (prepared ESP_AES_ENCRYPT w)) + length input) mod 16
         \<and> length out = length input"
  proof (rule run_loop_offsets [of iv_inv ?body, OF _ _ iv_inv_prepared [OF assms(1,2)] r])
    show "\<And>w x w1 bs. iv_inv w \<Longrightarrow> ?body w x = Returns () (w1, bs) \<Longrightarrow>
             iv_inv w1 \<and> rets w1 = rets w @ [if off w = 0 then Some OK else None]
             \<and> off w1 = (off w + 1) AND 0x0F \<and> length bs = 1"
    proof (cases "mode = ESP_AES_DECRYPT")
      case True
      then show "\<And>w x w1 bs. iv_inv w \<Longrightarrow> ?body w x = Returns () (w1, bs) \<Longrightarrow>
             iv_inv w1 \<and> rets w1 = rets w @ [if off w = 0 then Some OK else None]
             \<and> off w1 = (off w + 1) AND 0x0F \<and> length bs = 1"
        using cfb128_decrypt_offsets [of _ xf] by simp
    next
      case False
      then show "\<And>w x w1 bs. iv_inv w \<Longrightarrow> ?body w x = Returns () (w1, bs) \<Longrightarrow>
             iv_inv w1 \<and> rets w1 = rets w @ [if off w = 0 then Some OK else None]
             \<and> off w1 = (off w + 1) AND 0x0F \<and> length bs = 1"
        using cfb128_encrypt_offsets [of _ xf] by simp
    qed
    show "\<And>w. iv_inv w \<Longrightarrow> unat (off w) < 16" by (simp add: iv_inv_def)
  qed
  then show ?thesis by (simp add: w')
qed

lemma ofb_offsets_call:
  assumes "length (iv w) = 16"
    and "esp_aes_crypt_ofb xf p1 p2 p3 p4 p5 w input = Returns OK (w', out)"
  shows "unat (off w') = (unat (off w) + length input) mod 16
       \<and> rets w' = rets w @ block_log (unat (off w)) (length input)
       \<and> length out = length input"
proof -
  have c: "\<not> ((p1 = NULL \<or> p2 = NULL \<or> p3 = NULL \<or> p4 = NULL \<or> p5 = NULL \<or> off w > 15)
          \<or> \<not> valid_key_length (ctx w))"
    using assms(2) by (auto simp add: ofb_unfold split: if_splits)
  then have "off w \<le> 15" by (simp add: not_less)
  then have o: "unat (off w) < 16" by (simp add: word_le_nat_alt)
  from assms(2) c obtain w1 where
    r: "run_loop (ofb_body xf) (prepared ESP_AES_ENCRYPT w) input = Returns () (w1, out)"
    and w': "w' = release w1"
    by (auto simp add: ofb_unfold release_return_OK)
  have "iv_inv w1 \<and> rets w1 = rets (prepared ESP_AES_ENCRYPT w)
            @ block_log (unat (off (prepared ESP_AES_ENCRYPT w))) (length input)
         \<and> unat (off w1) = (unat (off (prepared ESP_AES_ENCRYPT w)) + length input) mod 16
         \<and> length out = length input"
  proof (rule run_loop_offsets [of iv_inv "ofb_body xf", OF _ _ iv_inv_prepared [OF assms(1) o] r])
    show "\<And>w x w1 bs. iv_inv w \<Longrightarrow> ofb_body xf w x = Returns () (w1, bs) \<Longrightarrow>
             iv_inv w1 \<and> rets w1 = rets w @ [if off w = 0 then Some OK else None]
             \<and> off w1 = (off w + 1) AND 0x0F \<and> length bs = 1"
      by (rule ofb_offsets)
    show "\<And>w. iv_inv w \<Longrightarrow> unat (off w) < 16" by (simp add: iv_inv_def)
  qed
  then show ?thesis by (simp add: w')
qed

lemma ctr_offsets_call:
  assumes "length (nonce_counter w) = 16" "unat (off w) < 16"
    and "esp_aes_crypt_ctr xf w input = Returns OK (w', out)"
  shows "unat (off w') = (unat (off w) + length input) mod 16
       \<and> rets w' = rets w @ block_log (unat (off w)) (length input)
       \<and> length out = length input"
proof -
  have v: "valid_key_length (ctx w)"
    using assms(3) by (auto simp add: esp_aes_crypt_ctr_def split: if_splits)
  from assms(3) obtain w1 where
    r: "run_loop (ctr_body xf) (prepared ESP_AES_ENCRYPT w) input = Returns () (w1, out)"
    and w': "w' = release w1"
    by (auto simp add: ctr_unfold v release_return_OK)
  have "ctr_inv w1 \<and> rets w1 = rets (prepared ESP_AES_ENCRYPT w)
            @ block_log (unat (off (prepared ESP_AES_ENCRYPT w))) (length input)
         \<and> unat (off w1) = (unat (off (prepared ESP_AES_ENCRYPT w)) + length input) mod 16
         \<and> length out = length input"
  proof (rule run_loop_offsets [of ctr_inv "ctr_body xf", OF _ _ ctr_inv_prepared [OF assms(1,2)] r])
    show "\<And>w x w1 bs. ctr_inv w \<Longrightarrow> ctr_body xf w x = Returns () (w1, bs) \<Longrightarrow>
             ctr_inv w1 \<and> rets w1 = rets w @ [if off w = 0 then Some OK else None]
             \<and> off w1 = (off w + 1) AND 0x0F \<and> length bs = 1"
      by (rule ctr_offsets)
    show "\<And>w. ctr_inv w \<Longrightarrow> unat (off w) < 16" by (simp add: ctr_inv_def)
  qed
  then show ?thesis by (simp add: w')
qed

section \<open>Every block runs on the hardware\<close>

lemma events_block_hw:
  "load_block x = (i0, i1, i2, i3) \<Longrightarrow>
     events (block_hw xf h x)
       = events h @ [WriteText 0 i0, WriteText 1 i1, WriteText 2 i2, WriteText 3 i3, Start, ReadText]"
  by (simp add: block_hw_def read_text_buffer_def start_and_wait_def write_text_reg_def)

lemma text_block_hw:
  "text_regs (block_hw xf h x) = xf (mode_reg h) (key_regs h) (load_block x)"
  by (cases "load_block x")
    (simp add: block_hw_def read_text_buffer_def start_and_wait_def del: One_nat_def)

lemma fault_found_block_hw:
  assumes "length x = 16" "hw_block xf h x = x"
  shows "fault_found xf (block_hw xf h x)"
proof -
  obtain i0 i1 i2 i3 where l: "load_block x = (i0, i1, i2, i3)"
    by (cases "load_block x") auto
  have f: "xf (mode_reg h) (key_regs h) (i0, i1, i2, i3) = (i0, i1, i2, i3)"
    using fixed_point_iff [OF assms(1), of xf h] assms(2) l by simp
  show ?thesis
    by (simp add: fault_found_def text_block_hw events_block_hw [OF l] l f)
qed

lemma run_loop_progress:
  assumes step: "\<And>w x. I w \<Longrightarrow> P x \<Longrightarrow>
       (\<exists>s. body w x = Aborts s \<and> ctx (fst s) = ctx w \<and> rets (fst s) = rets w
             \<and> fault_found xf (hw (fst s)))
       \<or> (\<exists>w1 bs e. body w x = Returns () (w1, bs) \<and> I w1 \<and> ctx w1 = ctx w
              \<and> rets w1 = rets w @ [e] \<and> (e = None \<or> e = Some OK))"
    and "I w" and "\<forall>x \<in> set xs. P x"
  shows "(\<exists>s es. run_loop body w xs = Aborts s \<and> ctx (fst s) = ctx w
              \<and> rets (fst s) = rets w @ es \<and> list_all (\<lambda>e. e = None \<or> e = Some OK) es
              \<and> fault_found xf (hw (fst s)))
       \<or> (\<exists>w' out es. run_loop body w xs = Returns () (w', out) \<and> I w' \<and> ctx w' = ctx w
              \<and> rets w' = rets w @ es \<and> list_all (\<lambda>e. e = None \<or> e = Some OK) es)"
  using assms(2,3)
proof (induction xs arbitrary: w)
  case Nil
  then show ?case by simp
next
  case (Cons x xs)
  have px: "P x" and pxs: "\<forall>x \<in> set xs. P x" using Cons.prems(2) by simp_all
  show ?case
  proof (cases "\<exists>s. body w x = Aborts s")
    case True
    with step [OF Cons.prems(1) px] obtain s where
      a: "body w x = Aborts s" and c: "ctx (fst s) = ctx w" and r: "rets (fst s) = rets w"
      and f: "fault_found xf (hw (fst s))"
      by auto
    have "run_loop body w (x # xs) = Aborts s \<and> ctx (fst s) = ctx w
        \<and> rets (fst s) = rets w @ [] \<and> list_all (\<lambda>e. e = None \<or> e = Some OK) []
        \<and> fault_found xf (hw (fst s))"
      using a c r f by simp
    then show ?thesis by blast
  next
    case False
    with step [OF Cons.prems(1) px] obtain w1 bs e where
      b: "body w x = Returns () (w1, bs)" and i: "I w1" and c: "ctx w1 = ctx w"
      and r: "rets w1 = rets w @ [e]" and e: "e = None \<or> e = Some OK"
      by blast
    show ?thesis
    proof (cases "\<exists>s. run_loop body w1 xs = Aborts s")
      case True
      with Cons.IH [OF i pxs] obtain s es where
        a: "run_loop body w1 xs = Aborts s" and c': "ctx (fst s) = ctx w1"
        and r': "rets (fst s) = rets w1 @ es"
        and g: "list_all (\<lambda>e. e = None \<or> e = Some OK) es"
        and f: "fault_found xf (hw (fst s))"
        by auto
      have "run_loop body w (x # xs) = Aborts (fst s, bs @ snd s)
          \<and> ctx (fst (fst s, bs @ snd s)) = ctx w
          \<and> rets (fst (fst s, bs @ snd s)) = rets w @ (e # es)
          \<and> list_all (\<lambda>e. e = None \<or> e = Some OK) (e # es)
          \<and> fault_found xf (hw (fst (fst s, bs @ snd s)))"
        using b a c c' r r' e g f by (cases s) simp
      then show ?thesis by blast
    next
      case False
      with Cons.IH [OF i pxs] obtain w' out es where
        l: "run_loop body w1 xs = Returns () (w', out)" and i': "I w'" and c': "ctx w' = ctx w1"
        and r': "rets w' = rets w1 @ es" and a: "list_all (\<lambda>e. e = None \<or> e = Some OK) es"
        by blast
      have "run_loop body w (x # xs) = Returns () (w', bs @ out) \<and> I w' \<and> ctx w' = ctx w
          \<and> rets w' = rets w @ (e # es) \<and> list_all (\<lambda>e. e = None \<or> e = Some OK) (e # es)"
        using b l i' c c' r r' e a by simp
      then show ?thesis by blast
    qed
  qed
qed

lemma blocks_ran_loop:
  assumes "rounds_ok xf I P body" and "I (prepared m w)" and "\<forall>x \<in> set xs. P x"
  shows "blocks_ran xf w (release_return (run_loop body (prepared m w) xs))"
proof -
  have step: "\<And>w x. I w \<Longrightarrow> P x \<Longrightarrow>
       (\<exists>s. body w x = Aborts s \<and> ctx (fst s) = ctx w \<and> rets (fst s) = rets w
             \<and> fault_found xf (hw (fst s)))
       \<or> (\<exists>w1 bs e. body w x = Returns () (w1, bs) \<and> I w1 \<and> ctx w1 = ctx w
              \<and> rets w1 = rets w @ [e] \<and> (e = None \<or> e = Some OK))"
    using assms(1) unfolding rounds_ok_def by blast
  from run_loop_progress [of I P body xf, OF step assms(2,3)] show ?thesis
    by (auto simp add: blocks_ran_def release_return_def key_in_place_def good_rounds_def)
qed

lemma cfb128_encrypt_progress: "rounds_ok xf iv_inv (\<lambda>x. True) (cfb128_encrypt_body xf)"
  by (simp add: rounds_ok_def iv_inv_def cfb128_encrypt_step Let_def loaded_def
        fault_found_block_hw)

lemma cfb128_decrypt_progress: "rounds_ok xf iv_inv (\<lambda>x. True) (cfb128_decrypt_body xf)"
  by (simp add: rounds_ok_def iv_inv_def cfb128_decrypt_step Let_def loaded_def
        fault_found_block_hw)

lemma ofb_progress: "rounds_ok xf iv_inv (\<lambda>x. True) (ofb_body xf)"
  by (simp add: rounds_ok_def iv_inv_def ofb_step Let_def loaded_def fault_found_block_hw)

lemma ctr_progress: "rounds_ok xf ctr_inv (\<lambda>x. True) (ctr_body xf)"
  by (simp add: rounds_ok_def ctr_inv_def ctr_step Let_def loaded_def fault_found_block_hw)

lemma cfb8_progress:
  "mode = ESP_AES_ENCRYPT \<or> mode = ESP_AES_DECRYPT \<Longrightarrow>
     rounds_ok xf rounds_inv (\<lambda>x. True) (cfb8_body xf mode)"
  by (simp add: rounds_ok_def rounds_inv_def cfb8_step Let_def loaded_def fault_found_block_hw)

lemma cbc_encrypt_progress: "rounds_ok xf rounds_inv (\<lambda>x. length x = 16) (cbc_encrypt_body xf)"
  by (simp add: rounds_ok_def rounds_inv_def cbc_encrypt_step Let_def loaded_def
        fault_found_block_hw)

lemma cbc_decrypt_progress: "rounds_ok xf rounds_inv (\<lambda>x. length x = 16) (cbc_decrypt_body xf)"
  by (simp add: rounds_ok_def rounds_inv_def cbc_decrypt_step Let_def loaded_def
        fault_found_block_hw)

lemma rounds_inv_prepared: "length (iv w) = 16 \<Longrightarrow> rounds_inv (prepared m w)"
  by (simp add: rounds_inv_def)

lemma cbc_unfold:
  "length input mod 16 = 0 \<Longrightarrow> esp_aes_crypt_cbc xf mode w input =
     (if \<not> valid_key_length (ctx w) then Returns MBEDTLS_ERR_AES_INVALID_KEY_LENGTH (w, [])
      else release_return (run_loop (if mode = ESP_AES_DECRYPT then cbc_decrypt_body xf
                                     else cbc_encrypt_body xf) (prepared mode w) (blocks16 input)))"
  by (simp add: esp_aes_crypt_cbc_def setkey_hardware_prepared)

text \<open>
  C10, as the code has it. Take a valid key length and a call of a streaming mode that
  passes its entry checks: for CBC a length that is a multiple of 16, for CFB8 a direction
  that is \<^verbatim>\<open>ESP_AES_ENCRYPT\<close> or \<^verbatim>\<open>ESP_AES_DECRYPT\<close>, the caller's arrays of 16 bytes and an
  offset below 16. The key-programming step leaves the key counter of the context equal to the
  key length, and it stays so. Then the call has one of two ends. Either it returns 0,
  and every round that called \<^verbatim>\<open>esp_aes_block\<close> got the result 0 from it: the branch that
  zeroes the block and returns an error was not taken. Or it ends in \<^verbatim>\<open>abort()\<close>, and then
  the abort is the one of the fault check in \<^verbatim>\<open>esp_aes_block\<close>: the peripheral's last
  accesses are the four writes of an input block, the start and the read-back, the text
  registers read back equal the words written, and every round before that one got the
  result 0 as well.
\<close>

theorem streaming_blocks_run_on_hardware:
  assumes "valid_key_length (ctx w)" and "length (iv w) = 16"
    and "length (nonce_counter w) = 16" and "unat (off w) < 16"
  shows "(length input mod 16 = 0 \<longrightarrow> blocks_ran xf w (esp_aes_crypt_cbc xf mode w input))
       \<and> blocks_ran xf w (esp_aes_crypt_cfb128 xf mode w input)
       \<and> (mode = ESP_AES_ENCRYPT \<or> mode = ESP_AES_DECRYPT
            \<longrightarrow> blocks_ran xf w (esp_aes_crypt_cfb8 xf mode w input))
       \<and> blocks_ran xf w (esp_aes_crypt_ctr xf w input)
       \<and> blocks_ran xf w (esp_aes_crypt_ofb xf Valid Valid Valid Valid Valid w input)"
proof (intro conjI impI)
  assume m: "length input mod 16 = 0"
  have b: "\<forall>x \<in> set (blocks16 input). length x = 16"
    using blocks16_lengths [OF m] by blast
  have "rounds_ok xf rounds_inv (\<lambda>x. length x = 16)
      (if mode = ESP_AES_DECRYPT then cbc_decrypt_body xf else cbc_encrypt_body xf)"
    by (simp add: cbc_encrypt_progress cbc_decrypt_progress)
  from blocks_ran_loop [where m = mode, OF this rounds_inv_prepared [OF assms(2)] b]
  show "blocks_ran xf w (esp_aes_crypt_cbc xf mode w input)"
    using assms(1) by (simp add: cbc_unfold [OF m])
next
  have "rounds_ok xf iv_inv (\<lambda>x. True)
      (if mode = ESP_AES_DECRYPT then cfb128_decrypt_body xf else cfb128_encrypt_body xf)"
    by (simp add: cfb128_encrypt_progress cfb128_decrypt_progress)
  from blocks_ran_loop [where m = ESP_AES_ENCRYPT and xs = input, OF this iv_inv_prepared [OF assms(2,4)]]
  show "blocks_ran xf w (esp_aes_crypt_cfb128 xf mode w input)"
    using assms(1) by (simp add: cfb128_unfold)
next
  assume d: "mode = ESP_AES_ENCRYPT \<or> mode = ESP_AES_DECRYPT"
  from blocks_ran_loop [where m = ESP_AES_ENCRYPT and xs = input, OF cfb8_progress [OF d] rounds_inv_prepared [OF assms(2)]]
  show "blocks_ran xf w (esp_aes_crypt_cfb8 xf mode w input)"
    using assms(1) by (simp add: cfb8_unfold)
next
  from blocks_ran_loop [where m = ESP_AES_ENCRYPT and xs = input, OF ctr_progress ctr_inv_prepared [OF assms(3,4)]]
  show "blocks_ran xf w (esp_aes_crypt_ctr xf w input)"
    using assms(1) by (simp add: ctr_unfold)
next
  have o: "\<not> off w > 15" using assms(4) by (simp add: word_less_nat_alt)
  from blocks_ran_loop [where m = ESP_AES_ENCRYPT and xs = input, OF ofb_progress iv_inv_prepared [OF assms(2,4)]]
  show "blocks_ran xf w (esp_aes_crypt_ofb xf Valid Valid Valid Valid Valid w input)"
    using assms(1) o by (simp add: ofb_unfold)
qed

theorem streaming_blocks_run_on_hardware_witness:
  "valid_key_length (ctx sample_world) \<and> length (iv sample_world) = 16
   \<and> length (nonce_counter sample_world) = 16 \<and> unat (off sample_world) < 16
   \<and> length sample_text mod 16 = 0
   \<and> blocks_ran toy_xform sample_world
        (esp_aes_crypt_cbc toy_xform ESP_AES_DECRYPT sample_world sample_text)
   \<and> blocks_ran toy_xform sample_world
        (esp_aes_crypt_cfb128 toy_xform ESP_AES_DECRYPT sample_world sample_text)
   \<and> blocks_ran toy_xform sample_world
        (esp_aes_crypt_cfb8 toy_xform ESP_AES_DECRYPT sample_world sample_text)
   \<and> blocks_ran toy_xform sample_world (esp_aes_crypt_ctr toy_xform sample_world sample_text)
   \<and> blocks_ran toy_xform sample_world
        (esp_aes_crypt_ofb toy_xform Valid Valid Valid Valid Valid sample_world sample_text)
   \<and> returned_ok (esp_aes_crypt_cbc toy_xform ESP_AES_DECRYPT sample_world sample_text)
   \<and> returned_ok (esp_aes_crypt_cfb128 toy_xform ESP_AES_DECRYPT sample_world sample_text)
   \<and> returned_ok (esp_aes_crypt_cfb8 toy_xform ESP_AES_DECRYPT sample_world sample_text)
   \<and> returned_ok (esp_aes_crypt_ctr toy_xform sample_world sample_text)
   \<and> returned_ok
        (esp_aes_crypt_ofb toy_xform Valid Valid Valid Valid Valid sample_world sample_text)
   \<and> blocks_ran skipped_xform sample_world
        (esp_aes_crypt_cbc skipped_xform ESP_AES_ENCRYPT sample_world sample_text)
   \<and> blocks_ran skipped_xform sample_world
        (esp_aes_crypt_cfb128 skipped_xform ESP_AES_ENCRYPT sample_world sample_text)
   \<and> blocks_ran skipped_xform sample_world
        (esp_aes_crypt_cfb8 skipped_xform ESP_AES_ENCRYPT sample_world sample_text)
   \<and> blocks_ran skipped_xform sample_world
        (esp_aes_crypt_ctr skipped_xform sample_world sample_text)
   \<and> blocks_ran skipped_xform sample_world
        (esp_aes_crypt_ofb skipped_xform Valid Valid Valid Valid Valid sample_world sample_text)
   \<and> aborted (esp_aes_crypt_cbc skipped_xform ESP_AES_ENCRYPT sample_world sample_text)
   \<and> aborted (esp_aes_crypt_cfb128 skipped_xform ESP_AES_ENCRYPT sample_world sample_text)
   \<and> aborted (esp_aes_crypt_cfb8 skipped_xform ESP_AES_ENCRYPT sample_world sample_text)
   \<and> aborted (esp_aes_crypt_ctr skipped_xform sample_world sample_text)
   \<and> aborted
        (esp_aes_crypt_ofb skipped_xform Valid Valid Valid Valid Valid sample_world sample_text)"
proof -
  have h1: "valid_key_length (ctx sample_world)" by code_simp
  have h2: "length (iv sample_world) = 16" by code_simp
  have h3: "length (nonce_counter sample_world) = 16" by code_simp
  have h4: "unat (off sample_world) < 16" by code_simp
  have h5: "ESP_AES_DECRYPT = ESP_AES_ENCRYPT \<or> ESP_AES_DECRYPT = ESP_AES_DECRYPT" by simp
  have h5': "ESP_AES_ENCRYPT = ESP_AES_ENCRYPT \<or> ESP_AES_ENCRYPT = ESP_AES_DECRYPT" by simp
  have h6: "length sample_text mod 16 = 0" by code_simp
  note t = streaming_blocks_run_on_hardware
      [OF h1 h2 h3 h4, where input = sample_text and xf = toy_xform and mode = ESP_AES_DECRYPT]
  note s = streaming_blocks_run_on_hardware
      [OF h1 h2 h3 h4, where input = sample_text and xf = skipped_xform
        and mode = ESP_AES_ENCRYPT]
  note c1 = conjunct1 and c2 = conjunct2
  have r1: "returned_ok (esp_aes_crypt_cbc toy_xform ESP_AES_DECRYPT sample_world sample_text)"
    by code_simp
  have r2: "returned_ok (esp_aes_crypt_cfb128 toy_xform ESP_AES_DECRYPT sample_world sample_text)"
    by code_simp
  have r3: "returned_ok (esp_aes_crypt_cfb8 toy_xform ESP_AES_DECRYPT sample_world sample_text)"
    by code_simp
  have r4: "returned_ok (esp_aes_crypt_ctr toy_xform sample_world sample_text)"
    by code_simp
  have r5: "returned_ok
        (esp_aes_crypt_ofb toy_xform Valid Valid Valid Valid Valid sample_world sample_text)"
    by code_simp
  have a1: "aborted (esp_aes_crypt_cbc skipped_xform ESP_AES_ENCRYPT sample_world sample_text)"
    by code_simp
  have a2: "aborted (esp_aes_crypt_cfb128 skipped_xform ESP_AES_ENCRYPT sample_world sample_text)"
    by code_simp
  have a3: "aborted (esp_aes_crypt_cfb8 skipped_xform ESP_AES_ENCRYPT sample_world sample_text)"
    by code_simp
  have a4: "aborted (esp_aes_crypt_ctr skipped_xform sample_world sample_text)"
    by code_simp
  have a5: "aborted
        (esp_aes_crypt_ofb skipped_xform Valid Valid Valid Valid Valid sample_world sample_text)"
    by code_simp
  show ?thesis
    by (intro conjI h1 h2 h3 h4 h6
          t [THEN c1, THEN mp, OF h6] t [THEN c2, THEN c1] t [THEN c2, THEN c2, THEN c1, THEN mp, OF h5]
          t [THEN c2, THEN c2, THEN c2, THEN c1] t [THEN c2, THEN c2, THEN c2, THEN c2]
          r1 r2 r3 r4 r5
          s [THEN c1, THEN mp, OF h6] s [THEN c2, THEN c1] s [THEN c2, THEN c2, THEN c1, THEN mp, OF h5']
          s [THEN c2, THEN c2, THEN c2, THEN c1] s [THEN c2, THEN c2, THEN c2, THEN c2]
          a1 a2 a3 a4 a5)
qed

text \<open>
  C10 as stated fails: with a valid key and a length of two blocks, a CBC call on
  hardware that leaves the text registers as they are does not return 0, it aborts.
\<close>

theorem streaming_call_aborts_counterexample:
  "valid_key_length (ctx sample_world) \<and> length sample_text mod 16 = 0
   \<and> aborted (esp_aes_crypt_cbc skipped_xform ESP_AES_ENCRYPT sample_world sample_text)
   \<and> \<not> returned_ok (esp_aes_crypt_cbc skipped_xform ESP_AES_ENCRYPT sample_world sample_text)"
  by code_simp

text \<open>
  C8 at an offset of 16. CFB128 and CTR take the offset as it comes: with no input the
  call returns 0 and the offset left is 16, and with one byte of input the loop indexes
  the 16-byte array at 16. OFB returns \<^verbatim>\<open>MBEDTLS_ERR_AES_BAD_INPUT_DATA\<close> for the same
  state.
\<close>

theorem offset_16_is_not_rejected:
  "returned_ok (esp_aes_crypt_cfb128 toy_xform ESP_AES_ENCRYPT (sample_world\<lparr>off := 16\<rparr>) [])
   \<and> off (state_of (esp_aes_crypt_cfb128 toy_xform ESP_AES_ENCRYPT (sample_world\<lparr>off := 16\<rparr>) [])) = 16
   \<and> esp_aes_crypt_cfb128 toy_xform ESP_AES_ENCRYPT (sample_world\<lparr>off := 16\<rparr>) [7] = OutOfBounds
   \<and> returned_ok (esp_aes_crypt_ctr toy_xform (sample_world\<lparr>off := 16\<rparr>) [])
   \<and> off (state_of (esp_aes_crypt_ctr toy_xform (sample_world\<lparr>off := 16\<rparr>) [])) = 16
   \<and> esp_aes_crypt_ctr toy_xform (sample_world\<lparr>off := 16\<rparr>) [7] = OutOfBounds
   \<and> esp_aes_crypt_ofb toy_xform Valid Valid Valid Valid Valid (sample_world\<lparr>off := 16\<rparr>) []
       = Returns MBEDTLS_ERR_AES_BAD_INPUT_DATA (sample_world\<lparr>off := 16\<rparr>, [])"
  by code_simp

section \<open>The CTR counter\<close>


lemma be_value_Nil [simp]: "be_value [] = 0"
  by (simp add: be_value_def)

lemma be_value_snoc [simp]: "be_value (xs @ [b]) = be_value xs * 256 + unat b"
  by (simp add: be_value_def)

lemma unat_u8_less: "unat (b :: u8) < 256"
  using unsigned_less [of b, where 'a = nat] by simp

lemma be_value_bound: "be_value xs < 256 ^ length xs"
proof (induction xs rule: rev_induct)
  case Nil
  show ?case by simp
next
  case (snoc b xs)
  have "be_value xs * 256 + unat b < (be_value xs + 1) * 256"
    using unat_u8_less [of b] by simp
  also have "\<dots> \<le> 256 ^ length xs * 256"
    using snoc by (intro mult_le_mono1) simp
  finally show ?case by simp
qed

lemma unat_inc_no_wrap:
  assumes "(b :: u8) + 1 \<noteq> 0" shows "unat (b + 1) = unat b + 1"
proof -
  have "unat (b + 1) = (unat b + 1) mod 256" by (simp add: unat_word_ariths)
  moreover have "unat b + 1 \<noteq> 256"
  proof
    assume "unat b + 1 = 256"
    then have "unat (b + 1) = 0" by (simp add: unat_word_ariths)
    then show False using assms by (simp add: unat_eq_0)
  qed
  ultimately show ?thesis using unat_u8_less [of b] by simp
qed

lemma unat_inc_wrap:
  assumes "(b :: u8) + 1 = 0" shows "unat b = 255"
proof -
  have "(unat b + 1) mod 256 = 0"
    using assms unat_word_ariths(1) [of b 1] by simp
  then show ?thesis using unat_u8_less [of b] by presburger
qed

lemma increment_counter_spec:
  "j \<le> length nc \<Longrightarrow>
     length (increment_counter j nc) = length nc
     \<and> drop j (increment_counter j nc) = drop j nc
     \<and> be_value (take j (increment_counter j nc)) = (be_value (take j nc) + 1) mod 256 ^ j"
proof (induction j arbitrary: nc)
  case 0
  show ?case by simp
next
  case (Suc j)
  have j: "j < length nc" using Suc.prems by simp
  let ?nc1 = "nc[j := nc ! j + 1]"
  let ?B = "be_value (take j nc)"
  have tk: "take (Suc j) nc = take j nc @ [nc ! j]"
    using j by (simp add: take_Suc_conv_app_nth)
  have B: "?B < 256 ^ j" using be_value_bound [of "take j nc"] j by simp
  show ?case
  proof (cases "nc ! j + 1 = 0")
    case False
    have r: "increment_counter (Suc j) nc = ?nc1"
      using False j by (simp add: Let_def)
    have t1: "take (Suc j) ?nc1 = take j nc @ [nc ! j + 1]"
      using j by (simp add: take_Suc_conv_app_nth)
    have "?B * 256 + unat (nc ! j) + 1 < 256 ^ j * 256"
    proof -
      have "?B * 256 + unat (nc ! j) + 1 < (?B + 1) * 256"
        using unat_inc_no_wrap [OF False] unat_u8_less [of "nc ! j + 1"] by simp
      also have "\<dots> \<le> 256 ^ j * 256" using B by (intro mult_le_mono1) simp
      finally show ?thesis .
    qed
    then show ?thesis
      using j by (simp add: r t1 tk unat_inc_no_wrap [OF False] del: increment_counter.simps)
  next
    case True
    have r: "increment_counter (Suc j) nc = increment_counter j ?nc1"
      using True j by (simp add: Let_def)
    have l1: "j \<le> length ?nc1" using j by simp
    note ih = Suc.IH [OF l1]
    let ?res = "increment_counter j ?nc1"
    have len: "length ?res = length nc" using ih by simp
    have dr: "drop j ?res = drop j ?nc1" using ih by simp
    have rj: "?res ! j = 0"
    proof -
      have "?res ! j = drop j ?res ! 0" using len j by simp
      also have "\<dots> = drop j ?nc1 ! 0" by (simp only: dr)
      also have "\<dots> = ?nc1 ! j" using j by simp
      finally show ?thesis using True j by simp
    qed
    have d2: "drop (Suc j) ?res = drop (Suc j) nc"
    proof -
      have "drop (Suc j) ?res = drop 1 (drop j ?res)" by simp
      also have "\<dots> = drop 1 (drop j ?nc1)" by (simp only: dr)
      finally show ?thesis by simp
    qed
    have bt: "be_value (take j ?res) = (?B + 1) mod 256 ^ j" using ih by simp
    have t2: "take (Suc j) ?res = take j ?res @ [0]"
      using len j rj by (simp add: take_Suc_conv_app_nth)
    have "(?B * 256 + 255 + 1) mod 256 ^ Suc j = ((?B + 1) mod 256 ^ j) * 256"
    proof -
      have "?B * 256 + 255 + 1 = (?B + 1) * 256" by simp
      moreover have "(256 :: nat) ^ Suc j = 256 ^ j * 256" by simp
      ultimately show ?thesis by (simp only: mult_mod_left)
    qed
    then show ?thesis
      using len d2 by (simp add: r t2 bt tk unat_inc_wrap [OF True] del: increment_counter.simps)
  qed
qed

lemma increment_counter_16:
  assumes "length nc = 16"
  shows "length (increment_counter 16 nc) = 16"
    and "be_value (increment_counter 16 nc) = (be_value nc + 1) mod 2 ^ 128"
proof -
  have p: "(256 :: nat) ^ 16 = 2 ^ 128" by simp
  from increment_counter_spec [of 16 nc] assms
  show "length (increment_counter 16 nc) = 16" by simp
  from increment_counter_spec [of 16 nc] assms
  have "be_value (take 16 (increment_counter 16 nc)) = (be_value (take 16 nc) + 1) mod 256 ^ 16"
    by simp
  moreover have "take 16 (increment_counter 16 nc) = increment_counter 16 nc"
    using assms by simp
  ultimately show "be_value (increment_counter 16 nc) = (be_value nc + 1) mod 2 ^ 128"
    using assms by (simp only: p) simp
qed

lemma increment_counter_carry:
  assumes "length xs = j" "b \<noteq> 255"
  shows "increment_counter (Suc (Suc j)) (xs @ [b, 255]) = xs @ [b + 1, 0]"
proof -
  have "b + 1 \<noteq> 0"
  proof
    assume "b + 1 = 0"
    then have "unat b = 255" by (rule unat_inc_wrap)
    then have "b = 255" by (simp add: word_unat_eq_iff)
    then show False using assms(2) by simp
  qed
  then show ?thesis
    using assms(1) by (simp add: Let_def nth_append list_update_append)
qed



lemma fresh_blocks_Suc:
  "fresh_blocks n (Suc len) = (if n mod 16 = 0 then 1 else 0) + fresh_blocks ((n + 1) mod 16) len"
  by (simp add: fresh_blocks_def block_log_Suc)

lemma fresh_blocks_snoc:
  "fresh_blocks n (Suc len) = fresh_blocks n len + (if (n + len) mod 16 = 0 then 1 else 0)"
  by (simp add: fresh_blocks_def block_log_def)

lemma div_16_round_up: "((m::nat) + 15) div 16 = m div 16 + (if m mod 16 = 0 then 0 else 1)"
proof -
  define q where "q = m div 16"
  define r where "r = m mod 16"
  have m: "m = q * 16 + r" and r: "r < 16" by (simp_all add: q_def r_def)
  show ?thesis
  proof (cases "r = 0")
    case True
    then show ?thesis unfolding m by simp
  next
    case False
    have a: "(q * 16 + r + 15) div 16 = q + (r + 15) div 16" by simp
    have "16 \<le> r + 15" "r + 15 < 32" using False r by simp_all
    then have "(r + 15) div 16 = 1" by (intro div_nat_eqI) simp_all
    then show ?thesis using False r a unfolding m by simp
  qed
qed

lemma div_16_next: "((n::nat) + Suc len + 15) div 16
      = (n + len + 15) div 16 + (if (n + len) mod 16 = 0 then 1 else 0)"
proof -
  have "(n + Suc len + 15) div 16 = (n + len) div 16 + 1" by simp
  then show ?thesis using div_16_round_up [of "n + len"] by simp
qed

lemma fresh_blocks_closed:
  "fresh_blocks n len = (n + len + 15) div 16 - (n + 15) div 16"
proof (induction len)
  case 0
  show ?case by (simp add: fresh_blocks_def block_log_def)
next
  case (Suc len)
  have a: "(n + 15) div 16 \<le> (n + len + 15) div 16" by (intro div_le_mono) simp
  have b: "(n + Suc len + 15) div 16
      = (n + len + 15) div 16 + (if (n + len) mod 16 = 0 then 1 else 0)"
    by (rule div_16_next)
  show ?case using a by (simp only: fresh_blocks_snoc Suc b) simp
qed

lemma ctr_counter_step:
  "ctr_inv w \<Longrightarrow> ctr_body xf w x = Returns () (w1, bs) \<Longrightarrow>
     ctr_inv w1
     \<and> nonce_counter w1 = (if off w = 0 then increment_counter 16 (nonce_counter w)
                            else nonce_counter w)
     \<and> off w1 = (off w + 1) AND 0x0F"
  by (auto simp add: ctr_inv_def ctr_step Let_def loaded_def split: if_splits)

lemma ctr_loop_counter:
  assumes "ctr_inv w" "run_loop (ctr_body xf) w xs = Returns () (w', out)"
  shows "be_value (nonce_counter w')
           = (be_value (nonce_counter w) + fresh_blocks (unat (off w)) (length xs)) mod 2 ^ 128"
  using assms
proof (induction xs arbitrary: w out)
  case Nil
  have "be_value (nonce_counter w) < 256 ^ 16"
    using be_value_bound [of "nonce_counter w"] Nil.prems(1) by (simp add: ctr_inv_def)
  then show ?case using Nil.prems(2) by (simp add: fresh_blocks_def block_log_def)
next
  case (Cons x xs)
  from Cons.prems(2) obtain w1 bs cs where
    b: "ctr_body xf w x = Returns () (w1, bs)"
    and r: "run_loop (ctr_body xf) w1 xs = Returns () (w', cs)"
    unfolding run_loop_Returns_Cons by blast
  note s = ctr_counter_step [OF Cons.prems(1) b]
  note ih = Cons.IH [OF s [THEN conjunct1] r]
  have n: "unat (off w) < 16" and l: "length (nonce_counter w) = 16"
    using Cons.prems(1) by (simp_all add: ctr_inv_def)
  have z: "(off w = 0) = (unat (off w) mod 16 = 0)" using n by (simp add: unat_eq_0)
  have u: "unat (off w1) = (unat (off w) + 1) mod 16"
    using s n by (simp add: unat_next_off)
  show ?case
  proof (cases "off w = 0")
    case True
    have "be_value (nonce_counter w1) = (be_value (nonce_counter w) + 1) mod 2 ^ 128"
      using s True increment_counter_16(2) [OF l] by simp
    then show ?thesis
      using ih True z by (simp add: u fresh_blocks_Suc mod_simps)
  next
    case False
    have "nonce_counter w1 = nonce_counter w" using s False by simp
    then show ?thesis
      using ih False z by (simp add: u fresh_blocks_Suc)
  qed
qed

text \<open>
  C4. The loop of \<^verbatim>\<open>esp_aes_crypt_ctr\<close> adds one to the 16-byte counter read as a
  big-endian number, modulo \<open>2\<^sup>1\<^sup>2\<^sup>8\<close>; a last byte of \<open>0xFF\<close> becomes 0 and carries into the
  byte before it. A call that returns 0 has incremented the counter once for each round
  that found offset 0, which are the rounds that generated a keystream block: from
  offset 0 that is once for every 16 bytes begun, 16 times for 256 bytes.
\<close>

theorem ctr_counter_is_big_endian:
  "(length nc = 16 \<longrightarrow>
      length (increment_counter 16 nc) = 16
      \<and> be_value (increment_counter 16 nc) = (be_value nc + 1) mod 2 ^ 128)
   \<and> (length xs = 14 \<and> b \<noteq> 255 \<longrightarrow> increment_counter 16 (xs @ [b, 255]) = xs @ [b + 1, 0])
   \<and> (length (nonce_counter w) = 16 \<and> unat (off w) < 16
        \<and> esp_aes_crypt_ctr xf w input = Returns OK (w', out) \<longrightarrow>
          be_value (nonce_counter w')
            = (be_value (nonce_counter w) + fresh_blocks (unat (off w)) (length input)) mod 2 ^ 128
          \<and> rets w' = rets w @ block_log (unat (off w)) (length input)
          \<and> (off w = 0 \<longrightarrow> fresh_blocks (unat (off w)) (length input) = (length input + 15) div 16)
          \<and> (off w = 0 \<and> length input = 256 \<longrightarrow>
                be_value (nonce_counter w') = (be_value (nonce_counter w) + 16) mod 2 ^ 128))"
proof (intro conjI impI)
  assume "length nc = 16"
  then show "length (increment_counter 16 nc) = 16"
    and "be_value (increment_counter 16 nc) = (be_value nc + 1) mod 2 ^ 128"
    by (rule increment_counter_16)+
next
  assume "length xs = 14 \<and> b \<noteq> 255"
  then show "increment_counter 16 (xs @ [b, 255]) = xs @ [b + 1, 0]"
    using increment_counter_carry [of xs 14 b] by (simp add: numeral_eq_Suc)
next
  assume a: "length (nonce_counter w) = 16 \<and> unat (off w) < 16
        \<and> esp_aes_crypt_ctr xf w input = Returns OK (w', out)"
  then have v: "valid_key_length (ctx w)"
    by (auto simp add: esp_aes_crypt_ctr_def split: if_splits)
  from a obtain w1 where
    r: "run_loop (ctr_body xf) (prepared ESP_AES_ENCRYPT w) input = Returns () (w1, out)"
    and w': "w' = release w1"
    by (auto simp add: ctr_unfold v release_return_OK)
  have i: "ctr_inv (prepared ESP_AES_ENCRYPT w)"
    using a by (simp add: ctr_inv_prepared)
  show c: "be_value (nonce_counter w')
      = (be_value (nonce_counter w) + fresh_blocks (unat (off w)) (length input)) mod 2 ^ 128"
    using ctr_loop_counter [OF i r] by (simp add: w')
  show "rets w' = rets w @ block_log (unat (off w)) (length input)"
    using ctr_offsets_call [of w xf input w' out] a by simp
  show "fresh_blocks (unat (off w)) (length input) = (length input + 15) div 16" if "off w = 0"
    using that by (simp add: fresh_blocks_closed)
  show "be_value (nonce_counter w') = (be_value (nonce_counter w) + 16) mod 2 ^ 128"
    if "off w = 0 \<and> length input = 256"
    using that c by (simp add: fresh_blocks_closed)
qed


theorem ctr_counter_is_big_endian_witness:
  "length (nonce_counter sample_world) = 16 \<and> unat (off sample_world) < 16
   \<and> esp_aes_crypt_ctr toy_xform sample_world sample_text
       = Returns OK (state_of (esp_aes_crypt_ctr toy_xform sample_world sample_text),
                     output_of (esp_aes_crypt_ctr toy_xform sample_world sample_text))
   \<and> be_value (nonce_counter (state_of (esp_aes_crypt_ctr toy_xform sample_world sample_text)))
       = (be_value (nonce_counter sample_world)
            + fresh_blocks (unat (off sample_world)) (length sample_text)) mod 2 ^ 128
   \<and> nonce_counter sample_world = replicate 14 0 @ [0, 255]
   \<and> nonce_counter (state_of (esp_aes_crypt_ctr toy_xform sample_world sample_text))
       = replicate 14 0 @ [1, 1]
   \<and> nonce_counter (state_of (esp_aes_crypt_ctr toy_xform sample_world (replicate 256 0)))
       = replicate 14 0 @ [1, 15]
   \<and> increment_counter 16 (replicate 14 0 @ [0, 255]) = replicate 14 0 @ [1, 0]"
proof -
  let ?r = "esp_aes_crypt_ctr toy_xform sample_world sample_text"
  have h1: "length (nonce_counter sample_world) = 16" by code_simp
  have h2: "unat (off sample_world) < 16" by code_simp
  have ok: "returned_ok ?r" by code_simp
  have h3: "?r = Returns OK (state_of ?r, output_of ?r)" by (rule returned_ok_eq [OF ok])
  note t = ctr_counter_is_big_endian [where w = sample_world and xf = toy_xform
      and input = sample_text and w' = "state_of ?r" and out = "output_of ?r"
      and xs = "replicate 14 0" and b = 0 and nc = "nonce_counter sample_world"]
  have c1: "be_value (nonce_counter (state_of ?r))
       = (be_value (nonce_counter sample_world)
            + fresh_blocks (unat (off sample_world)) (length sample_text)) mod 2 ^ 128"
    using t h1 h2 h3 by blast
  have c2: "increment_counter 16 (replicate 14 0 @ [0, 255]) = replicate 14 0 @ [1, 0]"
    using t by simp
  have c3: "nonce_counter sample_world = replicate 14 0 @ [0, 255]" by code_simp
  have c4: "nonce_counter (state_of ?r) = replicate 14 0 @ [1, 1]" by code_simp
  have c5: "nonce_counter (state_of (esp_aes_crypt_ctr toy_xform sample_world (replicate 256 0)))
       = replicate 14 0 @ [1, 15]"
    by code_simp
  show ?thesis
    using h1 h2 h3 c1 c2 c3 c4 c5 by blast
qed

end
